theory Spec2Isabelle
  imports Complex_Main "HOL-Library.Char_ord" "HOL-Library.List_Lexorder" "HOL-Library.Multiset"
begin

section \<open>Data model (types.ts and the interfaces of App)\<close>

text \<open>
  JavaScript strings are modelled as \<^typ>\<open>string\<close>; the non-ASCII literals of the source are
  written as their UTF-8 bytes, which keeps string equality as it is in the program.
  JavaScript numbers are modelled as exact rationals. An optional property of an object
  is an \<^typ>\<open>'a option\<close> field, \<^term>\<open>None\<close> standing for \<open>undefined\<close> (or \<open>null\<close>).
\<close>

type_synonym number = rat

definition ImageType_HE :: string where
  "ImageType_HE = [CHR 0x48, CHR 0x45, CHR 0xE6, CHR 0x9F, CHR 0x93, CHR 0xE8, CHR 0x89, CHR 0xB2]"

definition ImageType_IHC :: string where
  "ImageType_IHC = [CHR 0xE5, CHR 0x85, CHR 0x8D, CHR 0xE7, CHR 0x96, CHR 0xAB,
                    CHR 0xE7, CHR 0xBB, CHR 0x84, CHR 0xE5, CHR 0x8C, CHR 0x96]"

definition Magnification_OTHER :: string where
  "Magnification_OTHER = [CHR 0xE5, CHR 0x85, CHR 0xB6, CHR 0xE4, CHR 0xBB, CHR 0x96]"

definition Magnification_values :: "string list" where
  "Magnification_values =
     [''x10'', ''x20'', ''x40'', ''x100'', ''x200'', ''x400'', Magnification_OTHER]"

definition ImageType_values :: "string list" where
  "ImageType_values = [ImageType_HE, ImageType_IHC]"

definition TextLabel_DIAGNOSTIC_BASIS :: string where
  "TextLabel_DIAGNOSTIC_BASIS = [CHR 0xE8, CHR 0xAF, CHR 0x8A, CHR 0xE6, CHR 0x96, CHR 0xAD,
                                 CHR 0xE4, CHR 0xBE, CHR 0x9D, CHR 0xE6, CHR 0x8D, CHR 0xAE]"

text \<open>Field names follow the source; a name shared by several interfaces gets a prefix
  (\<open>id\<close> of QueuedImage is \<open>qid\<close>, its \<open>type\<close> is \<open>qtype\<close>, and so on).\<close>

record User =
  user_id :: string
  user_name :: string

record ImageRecord =
  img_id :: string
  url :: string
  fileName :: string
  type :: string
  magnification :: string
  description :: string

record TextRecord =
  sec_id :: string
  label :: string
  content :: string

text \<open>
  CaseRecord, and DraftRecord which extends it by \<open>id\<close> and \<open>status\<close>. Both are plain
  objects at run time, stored and read back untyped, so one record with the two
  draft-only properties optional covers them: \<open>delete obj.id\<close> is \<open>id' := None\<close>.
  \<open>submittedAt\<close> holds the output of \<open>Date.toISOString()\<close>; the model keeps the
  millisecond time value that \<open>new Date(s).getTime()\<close> reads back from it.
\<close>

record CaseRecord =
  id' :: "string option"
  status :: "string option"
  caseId :: string
  userId :: string
  username :: "string option"
  organCategory :: string
  textSections :: "TextRecord list"
  images :: "ImageRecord list"
  submittedAt :: "int option"
  updatedAt :: "int option"

record QueuedImage =
  qid :: string
  data :: string
  qtype :: string
  name :: string
  selected :: bool

record Notification =
  ntype :: string
  message :: string

subsection \<open>The extraction response (responseSchema of generateContent)\<close>

record DetectedImage =
  box_2d :: "number list option"
  ai_type :: "string option"
  ai_magnification :: "string option"
  ai_description :: "string option"
  originalImageIndex :: "number option"

record AICase =
  chapterNumber :: "string option"
  caseNumber :: "string option"
  ai_organCategory :: "string option"
  ai_textSections :: "(string \<times> string) list option"
  detectedImages :: "DetectedImage list option"

section \<open>The two object stores (initDB, saveToDB, removeFromDB, getAllFromDB)\<close>

text \<open>
  An object store is kept as its list of (key, value) entries in ascending key order,
  the order in which \<open>getAll\<close> returns them (keys compare as strings, here byte by byte).
  \<open>put\<close> replaces the entry of the same key.
\<close>

type_synonym 'v object_store = "(string \<times> 'v) list"

definition store_put :: "string \<Rightarrow> 'v \<Rightarrow> 'v object_store \<Rightarrow> 'v object_store" where
  "store_put k v st = insort_key fst (k, v) (filter (\<lambda>e. fst e \<noteq> k) st)"

definition store_delete :: "string \<Rightarrow> 'v object_store \<Rightarrow> 'v object_store" where
  "store_delete k st = filter (\<lambda>e. fst e \<noteq> k) st"

definition store_getAll :: "'v object_store \<Rightarrow> 'v list" where
  "store_getAll st = map snd st"

datatype store_name = STORE_CASES | STORE_DRAFTS

datatype error = ExtractionError | TypeError | DataError

section \<open>The application state and its environment\<close>

text \<open>
  The React state of \<open>App\<close> together with the part of the world the handlers act on:
  the two object stores, the requests sent to the extraction service, and how many
  identifiers and clock readings have been drawn. \<open>notifications\<close> lists every
  \<open>setNotification\<close> call in order; the banner shows the last one.
\<close>

record AppState =
  user :: "User option"
  notifications :: "Notification list"
  isAIProcessing :: bool
  isMinimized :: bool
  globalHistory :: "CaseRecord list"
  batchProgress_current :: nat
  batchProgress_total :: nat
  queuedImages :: "QueuedImage list"
  draftCases :: "CaseRecord list"
  selectedDraftIndex :: nat
  db_cases :: "CaseRecord object_store"
  db_drafts :: "CaseRecord object_store"
  requests :: "QueuedImage list list"
  uuid_count :: nat
  clock_count :: nat

text \<open>
  What the program does not decide itself: the reply of the extraction service to the
  \<open>n\<close>-th request once parsed (\<^term>\<open>None\<close> when the call never settles; an error when it
  rejects, \<open>JSON.parse\<close> throws or \<open>cases\<close> is not iterable; a \<open>null\<close> element of \<open>cases\<close>
  is \<^term>\<open>None\<close>), the pixels the canvas returns for a crop (\<^term>\<open>None\<close> when the page
  image never loads, so that the promise never resolves), the \<open>n\<close>-th value of \<open>uuidv4()\<close>
  and the \<open>n\<close>-th reading of the clock. The database is taken to open, and the
  sections and regions of a response to be objects, a section with a label and a content.
\<close>

record Env =
  generateContent :: "nat \<Rightarrow> QueuedImage list \<Rightarrow> (error + AICase option list) option"
  cropPixels :: "string \<Rightarrow> string \<Rightarrow> number list \<Rightarrow> string option"
  uuidv4 :: "nat \<Rightarrow> string"
  clock :: "nat \<Rightarrow> int"

definition saveToDB :: "store_name \<Rightarrow> CaseRecord \<Rightarrow> AppState \<Rightarrow> error + AppState" where
  \<comment> \<open>\<open>put\<close> takes the key from the store's key path: \<open>caseId\<close> for cases, \<open>id\<close> for
      drafts; an object without the key property is refused with a DataError.\<close>
  "saveToDB storeName d s =
     (case storeName of
        STORE_CASES \<Rightarrow> Inr (s\<lparr>db_cases := store_put (caseId d) d (db_cases s)\<rparr>)
      | STORE_DRAFTS \<Rightarrow>
          (case id' d of
             None \<Rightarrow> Inl DataError
           | Some k \<Rightarrow> Inr (s\<lparr>db_drafts := store_put k d (db_drafts s)\<rparr>)))"

definition removeFromDB :: "store_name \<Rightarrow> string \<Rightarrow> AppState \<Rightarrow> AppState" where
  "removeFromDB storeName k s =
     (case storeName of
        STORE_CASES \<Rightarrow> s\<lparr>db_cases := store_delete k (db_cases s)\<rparr>
      | STORE_DRAFTS \<Rightarrow> s\<lparr>db_drafts := store_delete k (db_drafts s)\<rparr>)"

definition getAllFromDB :: "store_name \<Rightarrow> AppState \<Rightarrow> CaseRecord list" where
  "getAllFromDB storeName s =
     (case storeName of
        STORE_CASES \<Rightarrow> store_getAll (db_cases s)
      | STORE_DRAFTS \<Rightarrow> store_getAll (db_drafts s))"

section \<open>History: loadAllData and unifiedHistory\<close>

definition getTime :: "CaseRecord \<Rightarrow> int" where
  \<comment> \<open>\<open>new Date(c.submittedAt || 0).getTime()\<close>\<close>
  "getTime c = (case submittedAt c of None \<Rightarrow> 0 | Some t \<Rightarrow> t)"

definition sort_newest_first :: "CaseRecord list \<Rightarrow> CaseRecord list" where
  \<comment> \<open>\<open>.sort((a, b) => time(b) - time(a))\<close>: the stable sort by descending time.\<close>
  "sort_newest_first xs = sort_key (\<lambda>c. - getTime c) xs"

definition loadAllData :: "AppState \<Rightarrow> AppState" where
  "loadAllData s =
     s\<lparr>globalHistory := sort_newest_first (getAllFromDB STORE_CASES s),
       draftCases := getAllFromDB STORE_DRAFTS s\<rparr>"

definition unifiedHistory :: "AppState \<Rightarrow> CaseRecord list" where
  "unifiedHistory s =
     (let confirmed = map (\<lambda>c. c\<lparr>status := Some ''confirmed''\<rparr>) (globalHistory s);
          drafts = map (\<lambda>d. d\<lparr>status := Some ''draft''\<rparr>) (draftCases s)
      in sort_newest_first (confirmed @ drafts))"

section \<open>Batch extraction: processBatchSequentially\<close>

text \<open>How a piece of asynchronous code ends: it returns a value, it throws, or it awaits
  a promise that never settles. The last two carry the state reached.\<close>

datatype 'a outcome = Normal 'a | Throws error AppState | Hangs AppState

definition CHUNK_SIZE :: nat where
  "CHUNK_SIZE = 2"

definition slice :: "nat \<Rightarrow> nat \<Rightarrow> 'a list \<Rightarrow> 'a list" where
  \<comment> \<open>\<open>xs.slice(b, e)\<close> for \<open>0 \<le> b \<le> e\<close>: the elements at indices \<open>b\<close> up to, not
      including, \<open>min e (length xs)\<close>.\<close>
  "slice b e xs = take (e - b) (drop b xs)"

definition or_else :: "string option \<Rightarrow> string \<Rightarrow> string" where
  \<comment> \<open>\<open>a || b\<close> for a string or absent \<open>a\<close>: the empty string is falsy too.\<close>
  "or_else a b = (case a of None \<Rightarrow> b | Some x \<Rightarrow> if x = [] then b else x)"

definition array_get :: "'a list \<Rightarrow> number \<Rightarrow> 'a option" where
  \<comment> \<open>\<open>xs[i]\<close>: \<open>undefined\<close> unless \<open>i\<close> is an integer index within the array.\<close>
  "array_get xs i =
     (if of_int \<lfloor>i\<rfloor> = i \<and> 0 \<le> i \<and> nat \<lfloor>i\<rfloor> < length xs then Some (xs ! nat \<lfloor>i\<rfloor>) else None)"

definition success_notification :: Notification where
  "success_notification =
     \<lparr>ntype = ''success'',
      message = [CHR 0xE5, CHR 0xA4, CHR 0x84, CHR 0xE7, CHR 0x90, CHR 0x86, CHR 0xE5, CHR 0xAE,
        CHR 0x8C, CHR 0xE6, CHR 0x88, CHR 0x90, CHR 0xEF, CHR 0xBC, CHR 0x81, CHR 0xE8, CHR 0xAF,
        CHR 0xB7, CHR 0xE5, CHR 0x9C, CHR 0xA8, CHR 0xE5, CHR 0x88, CHR 0x97, CHR 0xE8, CHR 0xA1,
        CHR 0xA8, CHR 0xE4, CHR 0xB8, CHR 0xAD, CHR 0xE6, CHR 0xA0, CHR 0xA1, CHR 0xE5, CHR 0xAF,
        CHR 0xB9, CHR 0xE7, CHR 0x94, CHR 0x9F, CHR 0xE6, CHR 0x88, CHR 0x90, CHR 0xE7, CHR 0x9A,
        CHR 0x84, CHR 0xE6, CHR 0x95, CHR 0xB0, CHR 0xE6, CHR 0x8D, CHR 0xAE, CHR 0xE3, CHR 0x80,
        CHR 0x82]\<rparr>"

definition failure_notification :: Notification where
  "failure_notification =
     \<lparr>ntype = ''error'',
      message = [CHR 0xE5, CHR 0xA4, CHR 0x84, CHR 0xE7, CHR 0x90, CHR 0x86, CHR 0xE5, CHR 0xBC,
        CHR 0x82, CHR 0xE5, CHR 0xB8, CHR 0xB8, CHR 0xE3, CHR 0x80, CHR 0x82]\<rparr>"

definition source_page :: "QueuedImage list \<Rightarrow> DetectedImage \<Rightarrow> QueuedImage option" where
  \<comment> \<open>\<open>const source = chunk[imgInfo.originalImageIndex ?? 0]\<close>\<close>
  "source_page chunk imgInfo =
     array_get chunk (case originalImageIndex imgInfo of None \<Rightarrow> 0 | Some i \<Rightarrow> i)"

definition image_callback ::
  "Env \<Rightarrow> QueuedImage list \<Rightarrow> DetectedImage \<Rightarrow> AppState \<Rightarrow> (ImageRecord option \<times> AppState) option" where
  \<comment> \<open>The async callback mapped over \<open>detectedImages\<close>: \<^term>\<open>None\<close> when the crop never
      resolves, otherwise the record (or \<open>null\<close>) and the state after drawing its id.
      The literal compared with \<open>imgInfo.type\<close> is the value of \<open>ImageType.IHC\<close>.\<close>
  "image_callback env chunk imgInfo s =
     (case source_page chunk imgInfo of
        None \<Rightarrow> Some (None, s)
      | Some source \<Rightarrow>
          (case box_2d imgInfo of
             None \<Rightarrow> Some (None, s)
           | Some box \<Rightarrow>
               (case cropPixels env (data source) (qtype source) box of
                  None \<Rightarrow> None
                | Some croppedBase64 \<Rightarrow>
                    Some (Some \<lparr>img_id = uuidv4 env (uuid_count s),
                                url = ''data:'' @ qtype source @ '';base64,'' @ croppedBase64,
                                fileName = ''Auto_'' @ name source,
                                type = (if ai_type imgInfo = Some ImageType_IHC
                                        then ImageType_IHC else ImageType_HE),
                                magnification = or_else (ai_magnification imgInfo) Magnification_OTHER,
                                description = or_else (ai_description imgInfo) []\<rparr>,
                          s\<lparr>uuid_count := Suc (uuid_count s)\<rparr>))))"

fun all_images ::
  "Env \<Rightarrow> QueuedImage list \<Rightarrow> DetectedImage list \<Rightarrow> AppState \<Rightarrow> (ImageRecord option list \<times> AppState) option" where
  "all_images env chunk [] s = Some ([], s)"
| "all_images env chunk (imgInfo # rest) s =
     (case image_callback env chunk imgInfo s of
        None \<Rightarrow> None
      | Some (r, s') \<Rightarrow>
          (case all_images env chunk rest s' of
             None \<Rightarrow> None
           | Some (rs, s'') \<Rightarrow> Some (r # rs, s'')))"

fun number_sections :: "Env \<Rightarrow> (string \<times> string) list \<Rightarrow> AppState \<Rightarrow> TextRecord list \<times> AppState" where
  "number_sections env [] s = ([], s)"
| "number_sections env ((l, c) # rest) s =
     (let r = \<lparr>sec_id = uuidv4 env (uuid_count s), label = l, content = c\<rparr>;
          (rs, s') = number_sections env rest (s\<lparr>uuid_count := Suc (uuid_count s)\<rparr>)
      in (r # rs, s'))"

definition process_case ::
  "Env \<Rightarrow> QueuedImage list \<Rightarrow> AICase option \<Rightarrow> AppState \<times> CaseRecord list
     \<Rightarrow> (AppState \<times> CaseRecord list) outcome" where
  \<comment> \<open>One turn of \<open>for (const aiCase of result.cases)\<close>; the list is \<open>chunkDrafts\<close>.\<close>
  "process_case env chunk c acc =
     (case acc of (s, chunkDrafts) \<Rightarrow>
       (case c of
          None \<Rightarrow> Throws TypeError s
        | Some aiCase \<Rightarrow>
           (let caseId = ''Case-'' @ or_else (chapterNumber aiCase) ''0'' @ ''-''
                           @ or_else (caseNumber aiCase) ''0''
            in (case all_images env chunk (case detectedImages aiCase of None \<Rightarrow> [] | Some ds \<Rightarrow> ds) s of
                  None \<Rightarrow> Hangs s
                | Some (rs, s1) \<Rightarrow>
                   (let images = List.map_filter (\<lambda>r. r) rs;
                        newId = uuidv4 env (uuid_count s1);
                        s2 = s1\<lparr>uuid_count := Suc (uuid_count s1)\<rparr>
                    in (case user s2 of
                          None \<Rightarrow> Throws TypeError s2
                        | Some u \<Rightarrow>
                           (let (secs, s3) = number_sections env
                                  (case ai_textSections aiCase of None \<Rightarrow> [] | Some ts \<Rightarrow> ts) s2;
                                now = clock env (clock_count s3);
                                s4 = s3\<lparr>clock_count := Suc (clock_count s3)\<rparr>;
                                newDraft = \<lparr>id' = Some newId, status = Some ''draft'', caseId = caseId,
                                            userId = user_id u, username = Some (user_name u),
                                            organCategory = or_else (ai_organCategory aiCase) [],
                                            textSections = secs, images = images,
                                            submittedAt = Some now, updatedAt = None\<rparr>
                            in (case saveToDB STORE_DRAFTS newDraft s4 of
                                  Inl e \<Rightarrow> Throws e s4
                                | Inr s5 \<Rightarrow> Normal (s5, chunkDrafts @ [newDraft])))))))))"

fun process_cases ::
  "Env \<Rightarrow> QueuedImage list \<Rightarrow> AICase option list \<Rightarrow> AppState \<times> CaseRecord list
     \<Rightarrow> (AppState \<times> CaseRecord list) outcome" where
  "process_cases env chunk [] acc = Normal acc"
| "process_cases env chunk (c # cs) acc =
     (case process_case env chunk c acc of
        Normal acc' \<Rightarrow> process_cases env chunk cs acc'
      | Throws e s' \<Rightarrow> Throws e s'
      | Hangs s' \<Rightarrow> Hangs s')"

definition process_chunk :: "Env \<Rightarrow> nat \<Rightarrow> QueuedImage list \<Rightarrow> AppState \<Rightarrow> AppState outcome" where
  \<comment> \<open>The body of the loop over chunks, at loop index \<open>i\<close>.\<close>
  "process_chunk env i chunk s =
     (let s1 = s\<lparr>batchProgress_current := i div CHUNK_SIZE + 1\<rparr>;
          s2 = s1\<lparr>requests := requests s1 @ [chunk]\<rparr>
      in case generateContent env (i div CHUNK_SIZE) chunk of
           None \<Rightarrow> Hangs s2
         | Some (Inl e) \<Rightarrow> Throws e s2
         | Some (Inr cases) \<Rightarrow>
             (case process_cases env chunk cases (s2, []) of
                Normal (s3, chunkDrafts) \<Rightarrow> Normal (s3\<lparr>draftCases := draftCases s3 @ chunkDrafts\<rparr>)
              | Throws e s' \<Rightarrow> Throws e s'
              | Hangs s' \<Rightarrow> Hangs s'))"

function batch_loop :: "Env \<Rightarrow> QueuedImage list \<Rightarrow> nat \<Rightarrow> AppState \<Rightarrow> AppState outcome" where
  "batch_loop env imagesToProcess i s =
     (if i < length imagesToProcess then
        (case process_chunk env i (slice i (i + CHUNK_SIZE) imagesToProcess) s of
           Normal s' \<Rightarrow> batch_loop env imagesToProcess (i + CHUNK_SIZE) s'
         | Throws e s' \<Rightarrow> Throws e s'
         | Hangs s' \<Rightarrow> Hangs s')
      else Normal s)"
  by pat_completeness auto
termination
  by (relation "measure (\<lambda>(env, imagesToProcess, i, s). length imagesToProcess - i)")
     (auto simp: CHUNK_SIZE_def)

definition begin_batch :: "QueuedImage list \<Rightarrow> AppState \<Rightarrow> AppState" where
  \<comment> \<open>The state on entry to the \<open>try\<close> block.\<close>
  "begin_batch imagesToProcess s =
     s\<lparr>batchProgress_current := 0,
       batchProgress_total := nat \<lceil>(of_nat (length imagesToProcess) :: rat) / of_nat CHUNK_SIZE\<rceil>,
       isAIProcessing := True, isMinimized := False\<rparr>"

definition processBatchSequentially :: "Env \<Rightarrow> AppState \<Rightarrow> AppState outcome" where
  "processBatchSequentially env s =
     (let imagesToProcess = filter selected (queuedImages s)
      in if length imagesToProcess = 0 then Normal s
         else
           (case batch_loop env imagesToProcess 0 (begin_batch imagesToProcess s) of
              Normal s2 \<Rightarrow>
                Normal (s2\<lparr>queuedImages := [],
                           notifications := notifications s2 @ [success_notification],
                           isAIProcessing := False\<rparr>)
            | Throws e s2 \<Rightarrow>
                Normal (s2\<lparr>notifications := notifications s2 @ [failure_notification],
                           isAIProcessing := False\<rparr>)
            | Hangs s2 \<Rightarrow> Hangs s2))"

section \<open>Confirming and deleting drafts: handleCaseSubmit, handleDraftDelete\<close>

definition currentCase :: "AppState \<Rightarrow> CaseRecord option" where
  \<comment> \<open>\<open>draftCases[selectedDraftIndex] || null\<close>\<close>
  "currentCase s =
     (if selectedDraftIndex s < length (draftCases s)
      then Some (draftCases s ! selectedDraftIndex s) else None)"

definition archived_notification :: Notification where
  "archived_notification =
     \<lparr>ntype = ''success'',
      message = [CHR 0xE5, CHR 0xB7, CHR 0xB2, CHR 0xE5, CHR 0xAD, CHR 0x98, CHR 0xE6, CHR 0xA1,
        CHR 0xA3]\<rparr>"

definition submit_failed_notification :: Notification where
  "submit_failed_notification =
     \<lparr>ntype = ''error'', message = [CHR 0xE5, CHR 0xA4, CHR 0xB1, CHR 0xE8, CHR 0xB4, CHR 0xA5]\<rparr>"

definition handleCaseSubmit :: "Env \<Rightarrow> AppState \<Rightarrow> AppState" where
  \<comment> \<open>\<open>removeFromDB\<close> with an \<open>undefined\<close> key has \<open>delete\<close> throw a DataError, which the
      \<open>catch\<close> turns into the failure notification.\<close>
  "handleCaseSubmit env s =
     (case currentCase s of
        None \<Rightarrow> s
      | Some cur \<Rightarrow>
         (let now = clock env (clock_count s);
              s0 = s\<lparr>clock_count := Suc (clock_count s)\<rparr>;
              confirmed = cur\<lparr>submittedAt := Some now\<rparr>;
              confirmed = confirmed\<lparr>id' := None\<rparr>;
              confirmed = confirmed\<lparr>status := None\<rparr>
          in (case saveToDB STORE_CASES confirmed s0 of
                Inl e \<Rightarrow> s0\<lparr>notifications := notifications s0 @ [submit_failed_notification]\<rparr>
              | Inr s1 \<Rightarrow>
                 (case id' cur of
                    None \<Rightarrow> s1\<lparr>notifications := notifications s1 @ [submit_failed_notification]\<rparr>
                  | Some k \<Rightarrow>
                     (let s2 = removeFromDB STORE_DRAFTS k s1;
                          s3 = loadAllData s2
                      in s3\<lparr>notifications := notifications s3 @ [archived_notification]\<rparr>)))))"

definition handleDraftDelete :: "string \<Rightarrow> AppState \<Rightarrow> AppState" where
  "handleDraftDelete k s =
     (let s1 = removeFromDB STORE_DRAFTS k s
      in s1\<lparr>draftCases := filter (\<lambda>d. id' d \<noteq> Some k) (draftCases s1)\<rparr>)"

section \<open>The cropper: cropImageByCoordinates\<close>

text \<open>
  The size the canvas is given for a loaded image of \<open>img_width\<close> by \<open>img_height\<close> pixels.
  The arithmetic of the source is done in doubles: \<open>fl\<close> is the rounding of an exact
  result to the double that the operation returns (the coordinates, 1000 and the image
  size are doubles already). Assigning a number to \<open>canvas.width\<close> converts it to an
  unsigned long: the fraction is dropped and the result taken modulo \<open>2^32\<close>.
\<close>

definition to_unsigned_long :: "number \<Rightarrow> nat" where
  "to_unsigned_long v = nat ((if 0 \<le> v then \<lfloor>v\<rfloor> else - \<lfloor>- v\<rfloor>) mod 2 ^ 32)"

definition crop_canvas_size ::
  "(number \<Rightarrow> number) \<Rightarrow> nat \<Rightarrow> nat \<Rightarrow> number \<times> number \<times> number \<times> number \<Rightarrow> nat \<times> nat" where
  "crop_canvas_size fl img_width img_height box =
     (case box of (ymin, xmin, ymax, xmax) \<Rightarrow>
        let x = fl (fl (xmin / 1000) * of_nat img_width);
            y = fl (fl (ymin / 1000) * of_nat img_height);
            width = fl (fl (fl (xmax - xmin) / 1000) * of_nat img_width);
            height = fl (fl (fl (ymax - ymin) / 1000) * of_nat img_height)
        in (to_unsigned_long (max 1 width), to_unsigned_long (max 1 height)))"

definition double_rounding :: "(number \<Rightarrow> number) \<Rightarrow> bool" where
  \<comment> \<open>What IEEE 754 round-to-nearest guarantees of an exact result \<open>r\<close> within the range
      of the doubles: a relative error of at most \<open>2^-53\<close>, or an absolute one of at most
      \<open>2^-1075\<close> where the result is subnormal.\<close>
  "double_rounding fl =
     (\<forall>r. \<bar>r\<bar> \<le> 2 ^ 1023 \<longrightarrow> \<bar>fl r - r\<bar> \<le> \<bar>r\<bar> / 2 ^ 53 + 1 / 2 ^ 1075)"

section \<open>JSON values, and the diagnostic-basis editor of TextEntry\<close>

text \<open>
  \<open>JSON.parse\<close> and \<open>JSON.stringify\<close> belong to the platform; the functions below take
  them as parameters. \<open>JSON.parse\<close> gives \<^term>\<open>None\<close> where it throws a SyntaxError.
  An object is the list of its properties, names distinct, in insertion order.
\<close>

datatype json = JNull | JBool bool | JNum number | JStr string | JArr "json list"
  | JObj "(string \<times> json) list"

record DiagnosticBasisStructured =
  gross :: string
  he :: string
  ihc :: string
  general :: string


fun is_object :: "json \<Rightarrow> bool" where
  \<comment> \<open>\<open>typeof parsed === 'object' && parsed !== null\<close>\<close>
  "is_object (JObj ps) = True"
| "is_object (JArr vs) = True"
| "is_object _ = False"




definition basis_json :: "DiagnosticBasisStructured \<Rightarrow> json" where
  \<comment> \<open>The object \<open>next\<close> as \<open>JSON.stringify\<close> receives it.\<close>
  "basis_json b =
     JObj [(''gross'', JStr (gross b)), (''he'', JStr (he b)), (''ihc'', JStr (ihc b)),
           (''general'', JStr (general b))]"


section \<open>The export view: JSONPreview\<close>

definition processContent :: "(string \<Rightarrow> json option) \<Rightarrow> string \<Rightarrow> string \<Rightarrow> json" where
  "processContent JSON_parse l c =
     (if l = TextLabel_DIAGNOSTIC_BASIS then
        (case JSON_parse c of
           None \<Rightarrow> JStr c
         | Some parsed \<Rightarrow> if is_object parsed then parsed else JStr c)
      else JStr c)"

definition set_property :: "string \<Rightarrow> json \<Rightarrow> (string \<rightharpoonup> json) \<Rightarrow> (string \<rightharpoonup> json)" where
  \<comment> \<open>\<open>acc[k] = v\<close> on an object literal, as the own properties it leaves: assigning to
      \<open>__proto__\<close> creates none.\<close>
  "set_property k v acc = (if k = ''__proto__'' then acc else acc(k \<mapsto> v))"

definition export_sections :: "(string \<Rightarrow> json option) \<Rightarrow> CaseRecord \<Rightarrow> (string \<rightharpoonup> json)" where
  \<comment> \<open>\<open>training_data.sections\<close> of \<open>exportData\<close>\<close>
  "export_sections JSON_parse d =
     fold (\<lambda>curr acc. set_property (label curr) (processContent JSON_parse (label curr) (content curr)) acc)
          (textSections d) Map.empty"

section \<open>Auxiliary notions for the statements\<close>

function chunks_from :: "nat \<Rightarrow> 'a list \<Rightarrow> 'a list list" where
  \<comment> \<open>The values \<open>chunk\<close> takes in the loop of processBatchSequentially from index \<open>i\<close> on,
      when no turn of the loop is cut short.\<close>
  "chunks_from i xs =
     (if i < length xs then slice i (i + CHUNK_SIZE) xs # chunks_from (i + CHUNK_SIZE) xs else [])"
  by pat_completeness auto
termination
  by (relation "measure (\<lambda>(i, xs). length xs - i)") (auto simp: CHUNK_SIZE_def)

fun state_of :: "AppState outcome \<Rightarrow> AppState" where
  "state_of (Normal s) = s"
| "state_of (Throws e s) = s"
| "state_of (Hangs s) = s"

definition chunk_at :: "'a list \<Rightarrow> nat \<Rightarrow> 'a list" where
  \<comment> \<open>\<open>imagesToProcess.slice(i, i + CHUNK_SIZE)\<close> at the loop index \<open>i = CHUNK_SIZE * j\<close> of
      the \<open>j\<close>-th turn of the loop.\<close>
  "chunk_at xs j = slice (CHUNK_SIZE * j) (CHUNK_SIZE * j + CHUNK_SIZE) xs"

definition responsive :: "Env \<Rightarrow> bool" where
  \<comment> \<open>An environment in which nothing fails: every request is answered with a list of
      cases none of which is \<open>null\<close>, and every crop resolves.\<close>
  "responsive env =
     ((\<forall>n chunk. \<exists>cases. generateContent env n chunk = Some (Inr cases) \<and> None \<notin> set cases)
      \<and> (\<forall>d t box. cropPixels env d t box \<noteq> None))"

definition expected_image :: "Env \<Rightarrow> QueuedImage list \<Rightarrow> DetectedImage \<Rightarrow> (string \<times> string) option" where
  \<comment> \<open>File name and URL of the record of a region when its source page is looked up in
      \<open>chunk\<close>: none when the index names no page of \<open>chunk\<close> or the box is missing.\<close>
  "expected_image env chunk r =
     (case source_page chunk r of
        None \<Rightarrow> None
      | Some p \<Rightarrow>
          (case box_2d r of
             None \<Rightarrow> None
           | Some box \<Rightarrow>
               (case cropPixels env (data p) (qtype p) box of
                  None \<Rightarrow> None
                | Some px \<Rightarrow> Some (''Auto_'' @ name p, ''data:'' @ qtype p @ '';base64,'' @ px))))"

definition case_images :: "Env \<Rightarrow> QueuedImage list \<Rightarrow> AICase option \<Rightarrow> (string \<times> string) list" where
  "case_images env chunk c =
     (case c of
        None \<Rightarrow> []
      | Some aiCase \<Rightarrow>
          List.map_filter (expected_image env chunk)
            (case detectedImages aiCase of None \<Rightarrow> [] | Some rs \<Rightarrow> rs))"

definition chunk_images :: "Env \<Rightarrow> QueuedImage list \<Rightarrow> nat \<Rightarrow> (string \<times> string) list list" where
  \<comment> \<open>For the \<open>j\<close>-th turn of the loop: per case of the reply to that turn's request, the
      file names and URLs of its regions with the source pages looked up in that turn's
      chunk.\<close>
  "chunk_images env imagesToProcess j =
     (case generateContent env j (chunk_at imagesToProcess j) of
        Some (Inr cases) \<Rightarrow> map (case_images env (chunk_at imagesToProcess j)) cases
      | _ \<Rightarrow> [])"

definition draft_images :: "CaseRecord \<Rightarrow> (string \<times> string) list" where
  "draft_images d = map (\<lambda>r. (fileName r, url r)) (images d)"

definition persisted :: "CaseRecord object_store \<Rightarrow> CaseRecord \<Rightarrow> bool" where
  \<comment> \<open>The store holds exactly this object under the object's \<open>id\<close>.\<close>
  "persisted st d = (case id' d of None \<Rightarrow> False | Some k \<Rightarrow> map_of st k = Some d)"

definition store_keys :: "'v object_store \<Rightarrow> string set" where
  "store_keys st = fst ` set st"

definition keyed_by_id :: "CaseRecord object_store \<Rightarrow> bool" where
  \<comment> \<open>Each entry of the draft store sits under the \<open>id\<close> of its value, as the key path
      \<open>id\<close> of the store has it.\<close>
  "keyed_by_id st = list_all (\<lambda>e. id' (snd e) = Some (fst e)) st"

definition ui_frame :: "AppState \<Rightarrow> AppState \<Rightarrow> bool" where
  \<comment> \<open>What no step inside the loop over chunks touches, and what it only lets grow.\<close>
  "ui_frame s s' =
     (user s' = user s \<and> notifications s' = notifications s \<and> queuedImages s' = queuedImages s
      \<and> globalHistory s' = globalHistory s \<and> db_cases s' = db_cases s
      \<and> isAIProcessing s' = isAIProcessing s \<and> isMinimized s' = isMinimized s
      \<and> selectedDraftIndex s' = selectedDraftIndex s
      \<and> batchProgress_total s' = batchProgress_total s
      \<and> store_keys (db_drafts s) \<subseteq> store_keys (db_drafts s')
      \<and> uuid_count s \<le> uuid_count s')"

definition case_frame :: "AppState \<Rightarrow> AppState \<Rightarrow> bool" where
  \<comment> \<open>What, in addition, no step inside the loop over the cases of one chunk touches.\<close>
  "case_frame s s' =
     (ui_frame s s' \<and> requests s' = requests s \<and> draftCases s' = draftCases s
      \<and> batchProgress_current s' = batchProgress_current s)"

definition drafts_tracked :: "Env \<Rightarrow> nat \<Rightarrow> AppState \<Rightarrow> CaseRecord list \<Rightarrow> bool" where
  \<comment> \<open>Each of the drafts got its \<open>id\<close> from a \<open>uuidv4()\<close> call of this run, and the draft
      store holds it under that \<open>id\<close>.\<close>
  "drafts_tracked env lo s ds =
     (\<forall>d \<in> set ds. \<exists>n \<in> {lo ..< uuid_count s}.
         id' d = Some (uuidv4 env n) \<and> map_of (db_drafts s) (uuidv4 env n) = Some d)"

declare chunks_from.simps [simp del] batch_loop.simps [simp del]

section \<open>A worked example\<close>

text \<open>
  Four queued pages of which the second is not selected; the service answers the first
  request with one case that has three regions and rejects every later request.
\<close>

definition example_page :: "string \<Rightarrow> bool \<Rightarrow> QueuedImage" where
  "example_page n sel = \<lparr>qid = n, data = ''AAAA'', qtype = ''image/jpeg'', name = n, selected = sel\<rparr>"

definition example_queue :: "QueuedImage list" where
  "example_queue = [example_page ''p1'' True, example_page ''p2'' False,
                    example_page ''p3'' True, example_page ''p4'' True]"

definition example_region :: DetectedImage where
  "example_region =
     \<lparr>box_2d = Some [100, 250, 400, 750], ai_type = Some ImageType_IHC,
      ai_magnification = Some ''x40'', ai_description = Some ''papillary structures'',
      originalImageIndex = Some 1\<rparr>"

definition example_case :: AICase where
  "example_case =
     \<lparr>chapterNumber = Some ''3'', caseNumber = None, ai_organCategory = Some ''thyroid'',
      ai_textSections = Some [(''history'', ''female, 42''), (''diagnosis'', ''carcinoma'')],
      detectedImages = Some [example_region,
                             example_region\<lparr>originalImageIndex := Some 2\<rparr>,
                             example_region\<lparr>originalImageIndex := None,
                                            ai_magnification := Some ''x5000''\<rparr>]\<rparr>"

definition example_env :: Env where
  "example_env =
     \<lparr>generateContent = (\<lambda>n chunk. if n = 0 then Some (Inr [Some example_case])
                                     else Some (Inl ExtractionError)),
      cropPixels = (\<lambda>d t box. Some ''CCCC''),
      uuidv4 = (\<lambda>n. replicate (Suc n) CHR ''u''),
      clock = (\<lambda>n. 1700000000000 + int n)\<rparr>"

definition example_state :: AppState where
  "example_state =
     \<lparr>user = Some \<lparr>user_id = ''op1'', user_name = ''Operator_01''\<rparr>,
      notifications = [], isAIProcessing = False, isMinimized = False, globalHistory = [],
      batchProgress_current = 0, batchProgress_total = 0, queuedImages = example_queue,
      draftCases = [], selectedDraftIndex = 0, db_cases = [], db_drafts = [], requests = [],
      uuid_count = 0, clock_count = 0\<rparr>"

definition example_failed_run :: AppState where
  "example_failed_run = state_of (processBatchSequentially example_env example_state)"

text \<open>
  The same queue with a service that answers every request, the first with the example
  case and the others with no case; and with a service whose reply to the first request
  holds the example case followed by \<open>null\<close>.
\<close>

definition example_ok_env :: Env where
  "example_ok_env =
     example_env\<lparr>generateContent :=
       (\<lambda>n chunk. Some (Inr (if n = 0 then [Some example_case] else [])))\<rparr>"

definition example_ok_run :: AppState where
  "example_ok_run = state_of (processBatchSequentially example_ok_env example_state)"

definition example_partial_env :: Env where
  "example_partial_env =
     example_env\<lparr>generateContent := (\<lambda>n chunk. Some (Inr [Some example_case, None]))\<rparr>"

definition example_partial_run :: AppState where
  "example_partial_run = state_of (processBatchSequentially example_partial_env example_state)"

text \<open>
  A review session: one draft under review, whose caseId was confirmed once before, and a
  second confirmed case without a timestamp.
\<close>

definition example_draft :: CaseRecord where
  "example_draft =
     \<lparr>id' = Some ''uuu'', status = Some ''draft'', caseId = ''Case-3-0'', userId = ''op1'',
      username = Some ''Operator_01'', organCategory = ''thyroid'',
      textSections = [\<lparr>sec_id = ''s1'', label = ''diagnosis'', content = ''carcinoma''\<rparr>],
      images = [], submittedAt = Some 200, updatedAt = None\<rparr>"

definition example_confirmed :: CaseRecord where
  "example_confirmed =
     \<lparr>id' = None, status = None, caseId = ''Case-3-0'', userId = ''op1'',
      username = Some ''Operator_01'', organCategory = ''thyroid'', textSections = [],
      images = [], submittedAt = Some 100, updatedAt = None\<rparr>"

definition example_undated :: CaseRecord where
  "example_undated = example_confirmed\<lparr>caseId := ''Case-1-1'', submittedAt := None\<rparr>"

definition example_review_state :: AppState where
  "example_review_state =
     example_state\<lparr>globalHistory := [example_confirmed, example_undated],
                   draftCases := [example_draft],
                   db_cases := [(''Case-1-1'', example_undated), (''Case-3-0'', example_confirmed)],
                   db_drafts := [(''uuu'', example_draft)]\<rparr>"

text \<open>
  The diagnostic-basis editor with only the H&E field filled in, and the platform's JSON
  functions tabulated at the one value and the one text this example needs.
\<close>

definition example_basis :: DiagnosticBasisStructured where
  "example_basis = \<lparr>gross = [], he = ''nuclear grooves'', ihc = [], general = ''see below''\<rparr>"

definition example_basis_text :: string where
  \<open>example_basis_text = ''{"gross":"","he":"nuclear grooves","ihc":"","general":"see below"}''\<close>


definition table_parse :: "string \<Rightarrow> json option" where
  "table_parse t = (if t = example_basis_text then Some (basis_json example_basis) else None)"


definition example_repeated_label :: CaseRecord where
  "example_repeated_label =
     example_draft\<lparr>textSections :=
       [\<lparr>sec_id = ''s1'', label = ''diagnosis'', content = ''adenoma''\<rparr>,
        \<lparr>sec_id = ''s2'', label = ''history'', content = ''female, 42''\<rparr>,
        \<lparr>sec_id = ''s3'', label = ''diagnosis'', content = ''carcinoma''\<rparr>]\<rparr>"

section \<open>Properties of the object stores\<close>

lemma map_of_filter_key:
  "map_of (filter (\<lambda>e. fst e \<noteq> k) st) k' = (if k' = k then None else map_of st k')"
  by (induction st) auto

lemma map_of_insort_key:
  "map_of (insort_key fst (k, v) st) k' = (if k' = k then Some v else map_of st k')" if "k \<notin> fst ` set st"
  using that by (induction st) auto

lemma map_of_store_put:
  "map_of (store_put k v st) k' = (if k' = k then Some v else map_of st k')"
  unfolding store_put_def
  by (subst map_of_insort_key) (auto simp: map_of_filter_key)

lemma store_keys_put: "store_keys (store_put k v st) = insert k (store_keys st)"
  by (auto simp: store_keys_def store_put_def set_insort_key)

lemma store_keys_delete: "store_keys (store_delete k st) = store_keys st - {k}"
  by (auto simp: store_keys_def store_delete_def)

lemma map_of_store_delete:
  "map_of (store_delete k st) k' = (if k' = k then None else map_of st k')"
  by (simp add: store_delete_def map_of_filter_key)

lemma length_filter_insort_key:
  "length (filter P (insort_key f x xs)) = length (filter P xs) + (if P x then 1 else 0)"
  by (induction xs) auto

lemma count_store_put: "length (filter (\<lambda>e. fst e = k) (store_put k v st)) = 1"
  by (simp add: store_put_def length_filter_insort_key)

section \<open>Properties of the cropper\<close>

lemma fl_bound:
  assumes "double_rounding fl" and "\<bar>r\<bar> \<le> B" and "B \<le> 2 ^ 32"
  shows "\<bar>fl r - r\<bar> \<le> (B + 1) / 2 ^ 53"
proof -
  have "(2::rat) ^ 32 \<le> 2 ^ 1023" by (intro power_increasing) simp_all
  then have "\<bar>r\<bar> \<le> 2 ^ 1023" using assms(2,3) by linarith
  then have "\<bar>fl r - r\<bar> \<le> \<bar>r\<bar> / 2 ^ 53 + 1 / 2 ^ 1075"
    using assms(1) by (simp only: double_rounding_def)
  moreover have "\<bar>r\<bar> / 2 ^ 53 \<le> B / 2 ^ 53"
    using assms(2) by (simp add: divide_right_mono)
  moreover have "(1::rat) / 2 ^ 1075 \<le> 1 / 2 ^ 53"
    by (intro divide_left_mono power_increasing) simp_all
  ultimately show ?thesis
    by (simp add: add_divide_distrib)
qed

lemma computed_extent_close:
  assumes fl: "double_rounding fl"
    and "0 \<le> lo" "lo \<le> hi" "hi \<le> 1000" "n < 2 ^ 31"
  shows "\<bar>fl (fl (fl (hi - lo) / 1000) * of_nat n) - ((hi - lo) / 1000) * of_nat n\<bar> \<le> 1 / 2 ^ 18"
proof -
  define d where "d = hi - lo"
  define a where "a = fl d"
  define b where "b = fl (a / 1000)"
  define c where "c = fl (b * of_nat n)"
  define N :: rat where "N = of_nat n"
  have d: "0 \<le> d" "d \<le> 1000" using assms by (simp_all add: d_def)
  have N: "0 \<le> N" "N \<le> 2 ^ 31"
    using assms(5) unfolding N_def by simp_all
  have 1: "\<bar>a - d\<bar> \<le> 1001 / 2 ^ 53"
    using fl_bound [OF fl, of d 1000] d by (simp add: a_def)
  have e1: "(1001::rat) / 2 ^ 53 \<le> 1" by simp
  have a: "\<bar>a\<bar> \<le> 1001" using 1 d e1 by linarith
  have a2: "\<bar>a / 1000\<bar> \<le> 2" using a by simp
  have 2: "\<bar>b - a / 1000\<bar> \<le> 3 / 2 ^ 53"
    using fl_bound [OF fl a2] by (simp add: b_def)
  have "\<bar>a / 1000 - d / 1000\<bar> = \<bar>a - d\<bar> / 1000"
    by (simp flip: diff_divide_distrib)
  also have "\<dots> \<le> (1001 / 2 ^ 53) / 1000" using 1 by (intro divide_right_mono) simp_all
  also have "\<dots> \<le> 2 / 2 ^ 53" by simp
  finally have 21: "\<bar>a / 1000 - d / 1000\<bar> \<le> 2 / 2 ^ 53" .
  have e2: "(3::rat) / 2 ^ 53 + 2 / 2 ^ 53 = 5 / 2 ^ 53" by simp
  have 3: "\<bar>b - d / 1000\<bar> \<le> 5 / 2 ^ 53"
    using 2 21 e2 by linarith
  have e3: "(5::rat) / 2 ^ 53 \<le> 1" by simp
  have d1: "d / 1000 \<le> 1" "0 \<le> d / 1000" using d by simp_all
  have b: "\<bar>b\<bar> \<le> 2" using 3 d1 e3 by linarith
  have bN: "\<bar>b * N\<bar> \<le> 2 ^ 32"
  proof -
    have "\<bar>b * N\<bar> = \<bar>b\<bar> * N" using N by (simp add: abs_mult)
    also have "\<dots> \<le> 2 * 2 ^ 31" using b N by (intro mult_mono) simp_all
    finally show ?thesis by simp
  qed
  have 4: "\<bar>c - b * N\<bar> \<le> (2 ^ 32 + 1) / 2 ^ 53"
    using fl_bound [OF fl bN] by (simp add: c_def N_def)
  have 5: "\<bar>b * N - d / 1000 * N\<bar> \<le> 5 / 2 ^ 53 * 2 ^ 31"
  proof -
    have "b * N - d / 1000 * N = (b - d / 1000) * N"
      by (simp only: left_diff_distrib)
    then have "\<bar>b * N - d / 1000 * N\<bar> = \<bar>b - d / 1000\<bar> * N"
      using N(1) by (simp only: abs_mult abs_of_nonneg)
    also have "\<dots> \<le> 5 / 2 ^ 53 * 2 ^ 31" using 3 N by (intro mult_mono) simp_all
    finally show ?thesis .
  qed
  have "\<bar>c - d / 1000 * N\<bar> \<le> (2 ^ 32 + 1) / 2 ^ 53 + 5 / 2 ^ 53 * 2 ^ 31"
    using 4 5 by linarith
  also have "\<dots> \<le> 1 / 2 ^ 18" by simp
  finally show ?thesis by (simp add: c_def b_def a_def d_def N_def)
qed

lemma extent_range:
  assumes "0 \<le> lo" "lo \<le> hi" "hi \<le> (1000::rat)" "n < (2::nat) ^ 31"
  shows "0 \<le> ((hi - lo) / 1000) * of_nat n" and "((hi - lo) / 1000) * of_nat n \<le> 2 ^ 31"
    and "lo = hi \<Longrightarrow> ((hi - lo) / 1000) * of_nat n = 0"
proof -
  have d: "0 \<le> (hi - lo) / 1000" "(hi - lo) / 1000 \<le> 1" using assms by simp_all
  have N: "(0::rat) \<le> of_nat n" "(of_nat n :: rat) \<le> 2 ^ 31" using assms(4) by simp_all
  show "0 \<le> ((hi - lo) / 1000) * of_nat n" using d(1) N(1) by (rule mult_nonneg_nonneg)
  have "((hi - lo) / 1000) * of_nat n \<le> 1 * 2 ^ 31"
    using d N by (intro mult_mono) simp_all
  then show "((hi - lo) / 1000) * of_nat n \<le> 2 ^ 31" by simp
  show "lo = hi \<Longrightarrow> ((hi - lo) / 1000) * of_nat n = 0" by simp
qed

lemma canvas_extent:
  assumes "0 \<le> e" "e \<le> 2 ^ 31" "\<bar>c - e\<bar> \<le> 1 / 2 ^ 18"
  shows "1 \<le> to_unsigned_long (max 1 c)"
    and "\<bar>of_nat (to_unsigned_long (max 1 c)) - e\<bar> \<le> 1 + 1 / 2 ^ 18"
    and "e = 0 \<Longrightarrow> to_unsigned_long (max 1 c) = 1"
proof -
  define m where "m = max 1 c"
  have e0: "(1::rat) / 2 ^ 18 \<le> 1" by simp
  have ce: "c \<le> e + 1" "e \<le> c + 1 / 2 ^ 18" using assms(3) e0 by linarith+
  have m: "1 \<le> m" "m \<le> 2 ^ 31 + 1" using assms(1,2) ce by (simp_all add: m_def)
  have fm: "1 \<le> \<lfloor>m\<rfloor>" "\<lfloor>m\<rfloor> < 2 ^ 32" using m by (simp_all add: le_floor_iff floor_less_iff)
  have w: "to_unsigned_long m = nat \<lfloor>m\<rfloor>"
    using m fm by (simp add: to_unsigned_long_def)
  show "1 \<le> to_unsigned_long (max 1 c)" using fm(1) w unfolding m_def by linarith
  have "of_int \<lfloor>m\<rfloor> \<le> m" "m - 1 < of_int \<lfloor>m\<rfloor>" by linarith+
  moreover have "(of_nat (nat \<lfloor>m\<rfloor>) :: rat) = of_int \<lfloor>m\<rfloor>" using fm by simp
  ultimately have r: "of_nat (to_unsigned_long m) \<le> m" "m - 1 < of_nat (to_unsigned_long m)"
    using w by simp_all
  show "\<bar>of_nat (to_unsigned_long (max 1 c)) - e\<bar> \<le> 1 + 1 / 2 ^ 18"
  proof (cases "1 \<le> c")
    case True
    then have "m = c" by (simp add: m_def)
    then show ?thesis using r assms(3) unfolding m_def by linarith
  next
    case False
    then have "m = 1" by (simp add: m_def)
    then have "of_nat (to_unsigned_long m) = (1::rat)" using r w fm by simp
    moreover have "e \<le> 1 + 1 / 2 ^ 18" using ce False by linarith
    moreover have "(0::rat) \<le> 1 / 2 ^ 18" by simp
    ultimately show ?thesis using assms(1) unfolding m_def by linarith
  qed
  show "to_unsigned_long (max 1 c) = 1" if "e = 0"
  proof -
    have "(1::rat) / 2 ^ 18 < 1" by simp
    then have "c < 1" using that assms(3) by linarith
    then have "m = 1" by (simp add: m_def)
    then show ?thesis using w by (simp add: m_def)
  qed
qed

text \<open>
  C2. For a loaded image of \<open>img_width\<close> by \<open>img_height\<close> pixels and a box with
  \<open>0 \<le> ymin \<le> ymax \<le> 1000\<close> and \<open>0 \<le> xmin \<le> xmax \<le> 1000\<close>, the canvas that becomes the
  output image is at least one pixel wide and high, its width is
  \<open>((xmax - xmin) / 1000) * img_width\<close> and its height \<open>((ymax - ymin) / 1000) * img_height\<close>
  up to the dropped fraction and the rounding of the double arithmetic (less than
  \<open>1 + 2^-18\<close> of a pixel in all), and a box of zero width or zero height gives a
  dimension of exactly one pixel.
\<close>

theorem crop_dimensions_proportional:
  assumes "double_rounding fl"
    and "0 \<le> ymin" and "ymin \<le> ymax" and "ymax \<le> 1000"
    and "0 \<le> xmin" and "xmin \<le> xmax" and "xmax \<le> 1000"
    and "img_width < 2 ^ 31" and "img_height < 2 ^ 31"
    and "crop_canvas_size fl img_width img_height (ymin, xmin, ymax, xmax) = (w, h)"
  shows "1 \<le> w \<and> 1 \<le> h
       \<and> \<bar>of_nat w - ((xmax - xmin) / 1000) * of_nat img_width\<bar> \<le> 1 + 1 / 2 ^ 18
       \<and> \<bar>of_nat h - ((ymax - ymin) / 1000) * of_nat img_height\<bar> \<le> 1 + 1 / 2 ^ 18
       \<and> (xmin = xmax \<longrightarrow> w = 1) \<and> (ymin = ymax \<longrightarrow> h = 1)"
proof -
  define cw where "cw = fl (fl (fl (xmax - xmin) / 1000) * of_nat img_width)"
  define ch where "ch = fl (fl (fl (ymax - ymin) / 1000) * of_nat img_height)"
  define ew where "ew = ((xmax - xmin) / 1000) * of_nat img_width"
  define eh where "eh = ((ymax - ymin) / 1000) * of_nat img_height"
  have w: "w = to_unsigned_long (max 1 cw)" and h: "h = to_unsigned_long (max 1 ch)"
    using assms(10) by (simp_all add: crop_canvas_size_def Let_def cw_def ch_def)
  have cw: "\<bar>cw - ew\<bar> \<le> 1 / 2 ^ 18"
    unfolding cw_def ew_def using assms by (intro computed_extent_close) 
  have ch: "\<bar>ch - eh\<bar> \<le> 1 / 2 ^ 18"
    unfolding ch_def eh_def using assms by (intro computed_extent_close)
  have ew: "0 \<le> ew" "ew \<le> 2 ^ 31" "xmin = xmax \<Longrightarrow> ew = 0"
    using extent_range [OF assms(5,6,7,8)] by (simp_all add: ew_def)
  have eh: "0 \<le> eh" "eh \<le> 2 ^ 31" "ymin = ymax \<Longrightarrow> eh = 0"
    using extent_range [OF assms(2,3,4,9)] by (simp_all add: eh_def)
  show ?thesis
    using canvas_extent [OF ew(1,2) cw] canvas_extent [OF eh(1,2) ch] ew(3) eh(3)
    unfolding w h ew_def eh_def by blast
qed

theorem crop_dimensions_proportional_witness:
  "double_rounding (\<lambda>r. r)
   \<and> crop_canvas_size (\<lambda>r. r) 800 600 (100, 250, 400, 750) = (400, 180)
   \<and> \<bar>of_nat 400 - ((750 - 250) / 1000) * of_nat 800\<bar> \<le> (1 + 1 / 2 ^ 18 :: rat)
   \<and> \<bar>of_nat 180 - ((400 - 100) / 1000) * of_nat 600\<bar> \<le> (1 + 1 / 2 ^ 18 :: rat)"
proof -
  have dr: "double_rounding (\<lambda>r. r)"
    unfolding double_rounding_def
  proof (intro allI impI)
    fix r :: rat
    have "(0::rat) \<le> \<bar>r\<bar> / 2 ^ 53" by (intro divide_nonneg_nonneg) simp_all
    moreover have "(0::rat) \<le> 1 / 2 ^ 1075" by (intro divide_nonneg_nonneg) simp_all
    ultimately have "(0::rat) \<le> \<bar>r\<bar> / 2 ^ 53 + 1 / 2 ^ 1075" by (rule add_nonneg_nonneg)
    then show "\<bar>r - r\<bar> \<le> \<bar>r\<bar> / 2 ^ 53 + 1 / 2 ^ 1075" by (simp only: diff_self abs_zero)
  qed
  have c: "crop_canvas_size (\<lambda>r. r) 800 600 (100, 250, 400, 750) = (400, 180)"
    by (simp add: crop_canvas_size_def to_unsigned_long_def)
  have y: "(0::rat) \<le> 100" "(100::rat) \<le> 400" "(400::rat) \<le> 1000" by simp_all
  have x: "(0::rat) \<le> 250" "(250::rat) \<le> 750" "(750::rat) \<le> 1000" by simp_all
  have n: "(800::nat) < 2 ^ 31" "(600::nat) < 2 ^ 31" by simp_all
  from crop_dimensions_proportional [OF dr y x n c] dr c show ?thesis by blast
qed

section \<open>Properties of the batch orchestrator\<close>

subsection \<open>The chunks the loop header yields\<close>

lemma length_chunks_from: "length (chunks_from i xs) = (length xs - i + 1) div 2"
proof (induction i xs rule: chunks_from.induct)
  case (1 i xs)
  show ?case
  proof (cases "i < length xs")
    case True
    have "length (chunks_from i xs) = Suc (length (chunks_from (i + CHUNK_SIZE) xs))"
      using True by (subst chunks_from.simps) simp
    also have "\<dots> = Suc ((length xs - (i + 2) + 1) div 2)"
      using "1" True by (simp add: CHUNK_SIZE_def)
    also have "\<dots> = (length xs - i + 1) div 2"
      using True by arith
    finally show ?thesis .
  next
    case False
    then show ?thesis by (subst chunks_from.simps) simp
  qed
qed

lemma concat_chunks_from: "concat (chunks_from i xs) = drop i xs"
proof (induction i xs rule: chunks_from.induct)
  case (1 i xs)
  show ?case
  proof (cases "i < length xs")
    case True
    have "take 2 (drop i xs) @ drop (i + 2) xs = drop i xs"
      by (metis add.commute append_take_drop_id drop_drop)
    then show ?thesis
      using "1" True by (subst chunks_from.simps) (simp add: CHUNK_SIZE_def slice_def)
  next
    case False
    then show ?thesis by (subst chunks_from.simps) simp
  qed
qed

lemma size_chunks_from: "c \<in> set (chunks_from i xs) \<Longrightarrow> 0 < length c \<and> length c \<le> CHUNK_SIZE"
proof (induction i xs rule: chunks_from.induct)
  case (1 i xs)
  show ?case
  proof (cases "i < length xs")
    case True
    then show ?thesis
      using "1.prems" "1.IH" 
      by (subst (asm) chunks_from.simps) (auto simp: slice_def CHUNK_SIZE_def)
  next
    case False
    then show ?thesis using "1.prems" by (subst (asm) chunks_from.simps) simp
  qed
qed

lemma ceil_half: "nat \<lceil>(of_nat n :: rat) / of_nat CHUNK_SIZE\<rceil> = (n + 1) div 2"
  unfolding CHUNK_SIZE_def by simp linarith

subsection \<open>What each level of the loop leaves alone\<close>

lemma ui_frame_refl: "ui_frame s s"
  by (simp add: ui_frame_def)

lemma ui_frame_trans: "ui_frame s s' \<Longrightarrow> ui_frame s' s'' \<Longrightarrow> ui_frame s s''"
  by (auto simp: ui_frame_def)

lemma case_frame_refl: "case_frame s s"
  by (simp add: case_frame_def ui_frame_refl)

lemma case_frame_trans: "case_frame s s' \<Longrightarrow> case_frame s' s'' \<Longrightarrow> case_frame s s''"
  by (auto simp: case_frame_def intro: ui_frame_trans)

lemma image_callback_frame:
  "image_callback env chunk r s = Some (x, s') \<Longrightarrow> case_frame s s' \<and> db_drafts s' = db_drafts s"
  by (auto simp: image_callback_def case_frame_def ui_frame_def split: option.splits)

lemma all_images_frame:
  "all_images env chunk rs s = Some (xs, s') \<Longrightarrow> case_frame s s' \<and> db_drafts s' = db_drafts s"
proof (induction rs arbitrary: s xs s')
  case Nil
  then show ?case by (simp add: case_frame_refl)
next
  case (Cons r rs)
  from Cons.prems obtain x s1 ys where
    1: "image_callback env chunk r s = Some (x, s1)" and 2: "all_images env chunk rs s1 = Some (ys, s')"
    by (auto split: option.splits)
  show ?case
    using image_callback_frame [OF 1] Cons.IH [OF 2] by (auto intro: case_frame_trans)
qed

lemma number_sections_frame:
  "number_sections env ts s = (rs, s') \<Longrightarrow> case_frame s s' \<and> db_drafts s' = db_drafts s"
proof (induction ts arbitrary: s rs s')
  case Nil
  then show ?case by (simp add: case_frame_refl)
next
  case (Cons t ts)
  obtain l c where t: "t = (l, c)" by (cases t)
  obtain rs0 s0 where r: "number_sections env ts (s\<lparr>uuid_count := Suc (uuid_count s)\<rparr>) = (rs0, s0)"
    by (cases "number_sections env ts (s\<lparr>uuid_count := Suc (uuid_count s)\<rparr>)")
  have "case_frame s (s\<lparr>uuid_count := Suc (uuid_count s)\<rparr>)"
    by (simp add: case_frame_def ui_frame_def)
  moreover have "s0 = s'" using Cons.prems t r by simp
  ultimately show ?case
    using Cons.IH [OF r] by (auto intro: case_frame_trans)
qed

lemma process_case_Normal:
  assumes "process_case env chunk c (s, ds) = Normal (s', ds')"
  shows "\<exists>d n. ds' = ds @ [d] \<and> uuid_count s \<le> n \<and> n < uuid_count s'
            \<and> id' d = Some (uuidv4 env n)
            \<and> db_drafts s' = store_put (uuidv4 env n) d (db_drafts s) \<and> case_frame s s'"
proof -
  from assms obtain aiCase where c: "c = Some aiCase"
    by (cases c) (simp_all add: process_case_def)
  define regions where "regions = (case detectedImages aiCase of None \<Rightarrow> [] | Some ds \<Rightarrow> ds)"
  from assms c obtain rs s1 where ai: "all_images env chunk regions s = Some (rs, s1)"
    by (cases "all_images env chunk regions s") (auto simp: process_case_def regions_def)
  define s2 where "s2 = s1\<lparr>uuid_count := Suc (uuid_count s1)\<rparr>"
  from assms c ai obtain u where u: "user s2 = Some u"
    by (cases "user s2") (auto simp: process_case_def regions_def s2_def Let_def)
  define ts where "ts = (case ai_textSections aiCase of None \<Rightarrow> [] | Some ts \<Rightarrow> ts)"
  obtain secs s3 where ns: "number_sections env ts s2 = (secs, s3)"
    by (cases "number_sections env ts s2")
  define s4 where "s4 = s3\<lparr>clock_count := Suc (clock_count s3)\<rparr>"
  define d where "d = \<lparr>id' = Some (uuidv4 env (uuid_count s1)), status = Some ''draft'',
      caseId = ''Case-'' @ or_else (chapterNumber aiCase) ''0'' @ ''-'' @ or_else (caseNumber aiCase) ''0'',
      userId = user_id u, username = Some (user_name u),
      organCategory = or_else (ai_organCategory aiCase) [],
      textSections = secs, images = List.map_filter (\<lambda>r. r) rs,
      submittedAt = Some (clock env (clock_count s3)), updatedAt = None\<rparr>"
  have res: "s' = s4\<lparr>db_drafts := store_put (uuidv4 env (uuid_count s1)) d (db_drafts s4)\<rparr>"
            "ds' = ds @ [d]"
    using assms c ai [unfolded regions_def] u [unfolded s2_def] ns [unfolded ts_def s2_def]
    by (simp_all add: process_case_def Let_def s4_def d_def saveToDB_def)
  have f1: "case_frame s s1" "db_drafts s1 = db_drafts s" using all_images_frame [OF ai] by simp_all
  have f2: "case_frame s1 s2" "db_drafts s2 = db_drafts s1"
    by (simp_all add: s2_def case_frame_def ui_frame_def)
  have f3: "case_frame s2 s3" "db_drafts s3 = db_drafts s2" using number_sections_frame [OF ns] by simp_all
  have f4: "case_frame s3 s4" "db_drafts s4 = db_drafts s3"
    by (simp_all add: s4_def case_frame_def ui_frame_def)
  have f5: "case_frame s4 s'"
    by (simp add: res(1) case_frame_def ui_frame_def store_keys_put subset_insertI)
  have cf: "case_frame s s'"
    using f1(1) f2(1) f3(1) f4(1) f5 by (blast intro: case_frame_trans)
  have "uuid_count s \<le> uuid_count s1" using f1(1) by (simp add: case_frame_def ui_frame_def)
  moreover have "uuid_count s1 < uuid_count s'"
    using f3(1) f4(1) f5 by (simp add: case_frame_def ui_frame_def s2_def)
  moreover have "db_drafts s' = store_put (uuidv4 env (uuid_count s1)) d (db_drafts s)"
    using res(1) f1(2) f2(2) f3(2) f4(2) by simp
  moreover have "id' d = Some (uuidv4 env (uuid_count s1))" by (simp add: d_def)
  ultimately show ?thesis using res(2) cf by blast
qed

lemma process_case_abort:
  assumes "process_case env chunk c (s, ds) = Throws e s' \<or> process_case env chunk c (s, ds) = Hangs s'"
  shows "case_frame s s' \<and> db_drafts s' = db_drafts s"
proof (cases c)
  case None
  then show ?thesis using assms by (auto simp: process_case_def case_frame_refl)
next
  case (Some aiCase)
  define regions where "regions = (case detectedImages aiCase of None \<Rightarrow> [] | Some ds \<Rightarrow> ds)"
  show ?thesis
  proof (cases "all_images env chunk regions s")
    case None
    then show ?thesis using assms Some by (auto simp: process_case_def regions_def case_frame_refl)
  next
    case ai: (Some p)
    obtain rs s1 where p: "p = (rs, s1)" by (cases p)
    define s2 where "s2 = s1\<lparr>uuid_count := Suc (uuid_count s1)\<rparr>"
    have f1: "case_frame s s1" "db_drafts s1 = db_drafts s"
      using all_images_frame [of env chunk regions s rs s1] ai p by simp_all
    have f2: "case_frame s1 s2" "db_drafts s2 = db_drafts s1"
      by (simp_all add: s2_def case_frame_def ui_frame_def)
    show ?thesis
    proof (cases "user s2")
      case None
      then have "s' = s2"
        using assms Some ai p by (auto simp: process_case_def regions_def s2_def Let_def)
      then show ?thesis using f1 f2 by (auto intro: case_frame_trans)
    next
      case u: (Some u)
      then have False
        using assms Some ai p
        by (auto simp: process_case_def regions_def s2_def Let_def saveToDB_def split: prod.splits)
      then show ?thesis ..
    qed
  qed
qed

subsection \<open>Drafts written by the run stay in the draft store\<close>

lemma drafts_tracked_keep:
  assumes "drafts_tracked env lo s xs" and "db_drafts s' = db_drafts s" and "uuid_count s \<le> uuid_count s'"
  shows "drafts_tracked env lo s' xs"
  unfolding drafts_tracked_def
proof
  fix x assume "x \<in> set xs"
  then obtain m where "m \<in> {lo ..< uuid_count s}" and m34: "id' x = Some (uuidv4 env m)"
      "map_of (db_drafts s) (uuidv4 env m) = Some x"
    using assms(1) unfolding drafts_tracked_def by blast
  then have m: "lo \<le> m" "m < uuid_count s" "id' x = Some (uuidv4 env m)"
      "map_of (db_drafts s) (uuidv4 env m) = Some x"
    by simp_all
  have "m \<in> {lo ..< uuid_count s'}" using m(1,2) assms(3) by simp
  then show "\<exists>n \<in> {lo ..< uuid_count s'}. id' x = Some (uuidv4 env n)
               \<and> map_of (db_drafts s') (uuidv4 env n) = Some x"
    using m(3,4) assms(2) by auto
qed

lemma drafts_tracked_put:
  assumes "inj (uuidv4 env)" and "drafts_tracked env lo s xs"
    and "lo \<le> n" and "uuid_count s \<le> n" and "n < uuid_count s'"
    and "id' d = Some (uuidv4 env n)"
    and "db_drafts s' = store_put (uuidv4 env n) d (db_drafts s)"
  shows "drafts_tracked env lo s' (xs @ [d])"
  unfolding drafts_tracked_def
proof
  fix x assume "x \<in> set (xs @ [d])"
  then consider "x \<in> set xs" | "x = d" by auto
  then show "\<exists>m \<in> {lo ..< uuid_count s'}. id' x = Some (uuidv4 env m)
               \<and> map_of (db_drafts s') (uuidv4 env m) = Some x"
  proof cases
    case 1
    then obtain m where "m \<in> {lo ..< uuid_count s}" and m34: "id' x = Some (uuidv4 env m)"
        "map_of (db_drafts s) (uuidv4 env m) = Some x"
      using assms(2) unfolding drafts_tracked_def by blast
    then have m: "lo \<le> m" "m < uuid_count s" "id' x = Some (uuidv4 env m)"
        "map_of (db_drafts s) (uuidv4 env m) = Some x"
      by simp_all
    have "m \<noteq> n" using m(2) assms(4) by simp
    then have "uuidv4 env m \<noteq> uuidv4 env n" using assms(1) by (simp add: inj_eq)
    then have "map_of (db_drafts s') (uuidv4 env m) = Some x"
      using m(4) by (simp add: assms(7) map_of_store_put)
    moreover have "m \<in> {lo ..< uuid_count s'}" using m(1,2) assms(4,5) by simp
    ultimately show ?thesis using m(3) by blast
  next
    case 2
    have "n \<in> {lo ..< uuid_count s'}" using assms(3,5) by simp
    moreover have "map_of (db_drafts s') (uuidv4 env n) = Some x"
      using 2 by (simp add: assms(7) map_of_store_put)
    ultimately show ?thesis using 2 assms(6) by blast
  qed
qed

lemma drafts_tracked_prefix: "drafts_tracked env lo s (xs @ ys) \<Longrightarrow> drafts_tracked env lo s xs"
  by (simp add: drafts_tracked_def)

lemma case_frame_uuid: "case_frame s s' \<Longrightarrow> uuid_count s \<le> uuid_count s'"
  by (simp add: case_frame_def ui_frame_def)

lemma process_cases_frame:
  "case_frame s (case process_cases env chunk cs (s, ds) of
                   Normal (s', ds') \<Rightarrow> s' | Throws e s' \<Rightarrow> s' | Hangs s' \<Rightarrow> s')"
proof (induction cs arbitrary: s ds)
  case Nil
  show ?case by (simp add: case_frame_refl)
next
  case (Cons c cs)
  show ?case
  proof (cases "process_case env chunk c (s, ds)")
    case (Normal acc)
    obtain s1 ds1 where acc: "acc = (s1, ds1)" by (cases acc)
    have "case_frame s s1" using process_case_Normal [of env chunk c s ds s1 ds1] Normal acc by auto
    then show ?thesis using Cons.IH [of s1 ds1] Normal acc by (auto intro: case_frame_trans)
  next
    case (Throws e s1)
    then show ?thesis using process_case_abort [of env chunk c s ds e s1] by simp
  next
    case (Hangs s1)
    then show ?thesis using process_case_abort [of env chunk c s ds _ s1] by simp
  qed
qed

lemma process_cases_tracked:
  assumes "inj (uuidv4 env)" and "drafts_tracked env lo s (mem @ ds)" and "lo \<le> uuid_count s"
  shows "case process_cases env chunk cs (s, ds) of
           Normal (s', ds') \<Rightarrow> (\<exists>new. ds' = ds @ new) \<and> drafts_tracked env lo s' (mem @ ds')
         | Throws e s' \<Rightarrow> drafts_tracked env lo s' mem
         | Hangs s' \<Rightarrow> drafts_tracked env lo s' mem"
  using assms(2,3)
proof (induction cs arbitrary: s ds)
  case Nil
  then show ?case by simp
next
  case (Cons c cs)
  show ?case
  proof (cases "process_case env chunk c (s, ds)")
    case (Normal acc)
    obtain s1 ds1 where acc: "acc = (s1, ds1)" by (cases acc)
    from process_case_Normal [of env chunk c s ds s1 ds1] Normal acc
    obtain d n where d: "ds1 = ds @ [d]" "uuid_count s \<le> n" "n < uuid_count s1"
        "id' d = Some (uuidv4 env n)" "db_drafts s1 = store_put (uuidv4 env n) d (db_drafts s)"
        "case_frame s s1"
      by auto
    have "lo \<le> n" using Cons.prems(2) d(2) by simp
    then have t: "drafts_tracked env lo s1 (mem @ ds1)"
      using drafts_tracked_put [OF assms(1) Cons.prems(1) _ d(2,3,4,5)] d(1) by simp
    have "lo \<le> uuid_count s1" using Cons.prems(2) d(2,3) by simp
    from Cons.IH [OF t this] show ?thesis
      using Normal acc d(1) by (auto split: outcome.splits)
  next
    case (Throws e s1)
    have "case_frame s s1 \<and> db_drafts s1 = db_drafts s"
      using process_case_abort [of env chunk c s ds e s1] Throws by simp
    then show ?thesis
      using Throws drafts_tracked_keep [OF drafts_tracked_prefix [OF Cons.prems(1)], of s1]
      by (simp add: case_frame_uuid)
  next
    case (Hangs s1)
    have "case_frame s s1 \<and> db_drafts s1 = db_drafts s"
      using process_case_abort [of env chunk c s ds _ s1] Hangs by simp
    then show ?thesis
      using Hangs drafts_tracked_keep [OF drafts_tracked_prefix [OF Cons.prems(1)], of s1]
      by (simp add: case_frame_uuid)
  qed
qed

subsection \<open>The body and the loop over chunks\<close>

lemma process_chunk_frame:
  "ui_frame s (state_of (process_chunk env i chunk s))
   \<and> requests (state_of (process_chunk env i chunk s)) = requests s @ [chunk]
   \<and> batchProgress_current (state_of (process_chunk env i chunk s)) = i div CHUNK_SIZE + 1"
proof -
  define s2 where "s2 = s\<lparr>batchProgress_current := i div CHUNK_SIZE + 1, requests := requests s @ [chunk]\<rparr>"
  have s2: "ui_frame s s2" "requests s2 = requests s @ [chunk]"
      "batchProgress_current s2 = i div CHUNK_SIZE + 1"
    by (simp_all add: s2_def ui_frame_def)
  have cf: "case_frame s2 s' \<Longrightarrow> ui_frame s s' \<and> requests s' = requests s @ [chunk]
      \<and> batchProgress_current s' = i div CHUNK_SIZE + 1" for s'
    using s2 by (auto simp: case_frame_def intro: ui_frame_trans)
  show ?thesis
  proof (cases "generateContent env (i div CHUNK_SIZE) chunk")
    case None
    then have "process_chunk env i chunk s = Hangs s2"
      by (simp add: process_chunk_def s2_def)
    then show ?thesis using cf [OF case_frame_refl] by simp
  next
    case (Some r)
    show ?thesis
    proof (cases r)
      case (Inl e)
      then have "process_chunk env i chunk s = Throws e s2"
        using Some by (simp add: process_chunk_def s2_def)
      then show ?thesis using cf [OF case_frame_refl] by simp
    next
      case (Inr cases)
      have pc: "process_chunk env i chunk s =
          (case process_cases env chunk cases (s2, []) of
             Normal (s3, chunkDrafts) \<Rightarrow> Normal (s3\<lparr>draftCases := draftCases s3 @ chunkDrafts\<rparr>)
           | Throws e s' \<Rightarrow> Throws e s' | Hangs s' \<Rightarrow> Hangs s')"
        using Some Inr by (simp add: process_chunk_def s2_def)
      show ?thesis
      proof (cases "process_cases env chunk cases (s2, [])")
        case (Normal acc)
        obtain s3 ds where acc: "acc = (s3, ds)" by (cases acc)
        have "case_frame s2 s3" using process_cases_frame [of s2 env chunk cases "[]"] Normal acc by simp
        from cf [OF this] show ?thesis
          using pc Normal acc by (simp add: ui_frame_def)
      next
        case (Throws e s')
        have "case_frame s2 s'" using process_cases_frame [of s2 env chunk cases "[]"] Throws by simp
        from cf [OF this] show ?thesis using pc Throws by simp
      next
        case (Hangs s')
        have "case_frame s2 s'" using process_cases_frame [of s2 env chunk cases "[]"] Hangs by simp
        from cf [OF this] show ?thesis using pc Hangs by simp
      qed
    qed
  qed
qed

lemma process_chunk_tracked:
  assumes "inj (uuidv4 env)" and "drafts_tracked env lo s mem" and "lo \<le> uuid_count s"
  shows "\<exists>new. draftCases (state_of (process_chunk env i chunk s)) = draftCases s @ new
           \<and> drafts_tracked env lo (state_of (process_chunk env i chunk s)) (mem @ new)"
proof -
  define s2 where "s2 = s\<lparr>batchProgress_current := i div CHUNK_SIZE + 1, requests := requests s @ [chunk]\<rparr>"
  have s2: "draftCases s2 = draftCases s" "db_drafts s2 = db_drafts s" "uuid_count s2 = uuid_count s"
    by (simp_all add: s2_def)
  have t2: "drafts_tracked env lo s2 (mem @ [])" "lo \<le> uuid_count s2"
    using drafts_tracked_keep [OF assms(2), of s2] assms(3) s2 by simp_all
  have stay: "\<exists>new. draftCases s' = draftCases s @ new \<and> drafts_tracked env lo s' (mem @ new)"
    if "case_frame s2 s'" "drafts_tracked env lo s' mem" for s'
    using that s2(1) by (intro exI [of _ "[]"]) (simp add: case_frame_def)
  show ?thesis
  proof (cases "generateContent env (i div CHUNK_SIZE) chunk")
    case None
    then have "process_chunk env i chunk s = Hangs s2"
      by (simp add: process_chunk_def s2_def)
    then show ?thesis using stay [OF case_frame_refl] t2(1) by simp
  next
    case (Some r)
    show ?thesis
    proof (cases r)
      case (Inl e)
      then have "process_chunk env i chunk s = Throws e s2"
        using Some by (simp add: process_chunk_def s2_def)
      then show ?thesis using stay [OF case_frame_refl] t2(1) by simp
    next
      case (Inr cases)
      have pc: "process_chunk env i chunk s =
          (case process_cases env chunk cases (s2, []) of
             Normal (s3, chunkDrafts) \<Rightarrow> Normal (s3\<lparr>draftCases := draftCases s3 @ chunkDrafts\<rparr>)
           | Throws e s' \<Rightarrow> Throws e s' | Hangs s' \<Rightarrow> Hangs s')"
        using Some Inr by (simp add: process_chunk_def s2_def)
      note fr = process_cases_frame [of s2 env chunk cases "[]"]
      note tr = process_cases_tracked [OF assms(1) t2, of chunk cases]
      show ?thesis
      proof (cases "process_cases env chunk cases (s2, [])")
        case (Normal acc)
        obtain s3 ds where acc: "acc = (s3, ds)" by (cases acc)
        have 1: "case_frame s2 s3" using fr Normal acc by simp
        have 2: "drafts_tracked env lo s3 (mem @ ds)" using tr Normal acc by simp
        have "drafts_tracked env lo (s3\<lparr>draftCases := draftCases s3 @ ds\<rparr>) (mem @ ds)"
          using drafts_tracked_keep [OF 2] by simp
        moreover have "draftCases s3 = draftCases s" using 1 s2(1) by (simp add: case_frame_def)
        ultimately show ?thesis using pc Normal acc by simp
      next
        case (Throws e s')
        then show ?thesis using pc fr tr stay [of s'] by simp
      next
        case (Hangs s')
        then show ?thesis using pc fr tr stay [of s'] by simp
      qed
    qed
  qed
qed

lemma batch_loop_frame:
  "ui_frame s (state_of (batch_loop env imgs i s))
   \<and> (case batch_loop env imgs i s of
         Normal s' \<Rightarrow> requests s' = requests s @ chunks_from i imgs
       | Throws e s' \<Rightarrow>
           (\<exists>k < length (chunks_from i imgs).
               requests s' = requests s @ take (Suc k) (chunks_from i imgs)
               \<and> batchProgress_current s' = i div CHUNK_SIZE + Suc k)
       | Hangs s' \<Rightarrow>
           (\<exists>k < length (chunks_from i imgs).
               requests s' = requests s @ take (Suc k) (chunks_from i imgs)
               \<and> batchProgress_current s' = i div CHUNK_SIZE + Suc k))"
proof (induction env imgs i s rule: batch_loop.induct)
  case (1 env imgs i s)
  show ?case
  proof (cases "i < length imgs")
    case False
    then show ?thesis
      by (simp add: batch_loop.simps [of env imgs i s] chunks_from.simps [of i imgs] ui_frame_refl)
  next
    case True
    define chunk where "chunk = slice i (i + CHUNK_SIZE) imgs"
    have cf: "chunks_from i imgs = chunk # chunks_from (i + CHUNK_SIZE) imgs"
      using True by (simp add: chunks_from.simps [of i imgs] chunk_def)
    note pf = process_chunk_frame [of s env i chunk]
    show ?thesis
    proof (cases "process_chunk env i chunk s")
      case (Normal s1)
      have bl: "batch_loop env imgs i s = batch_loop env imgs (i + CHUNK_SIZE) s1"
        using True Normal by (simp add: batch_loop.simps [of env imgs i s] chunk_def)
      have ih: "ui_frame s1 (state_of (batch_loop env imgs (i + CHUNK_SIZE) s1))
        \<and> (case batch_loop env imgs (i + CHUNK_SIZE) s1 of
         Normal s' \<Rightarrow> requests s' = requests s1 @ chunks_from (i + CHUNK_SIZE) imgs
       | Throws e s' \<Rightarrow>
           (\<exists>k < length (chunks_from (i + CHUNK_SIZE) imgs).
               requests s' = requests s1 @ take (Suc k) (chunks_from (i + CHUNK_SIZE) imgs)
               \<and> batchProgress_current s' = (i + CHUNK_SIZE) div CHUNK_SIZE + Suc k)
       | Hangs s' \<Rightarrow>
           (\<exists>k < length (chunks_from (i + CHUNK_SIZE) imgs).
               requests s' = requests s1 @ take (Suc k) (chunks_from (i + CHUNK_SIZE) imgs)
               \<and> batchProgress_current s' = (i + CHUNK_SIZE) div CHUNK_SIZE + Suc k))"
        using "1.IH" [OF True _ , of s1] Normal by (simp add: chunk_def)
      have s1: "ui_frame s s1" "requests s1 = requests s @ [chunk]" using pf Normal by simp_all
      have shift: "\<exists>k < length (chunks_from i imgs).
               requests s' = requests s @ take (Suc k) (chunks_from i imgs)
               \<and> batchProgress_current s' = i div CHUNK_SIZE + Suc k"
        if "\<exists>k < length (chunks_from (i + CHUNK_SIZE) imgs).
               requests s' = requests s1 @ take (Suc k) (chunks_from (i + CHUNK_SIZE) imgs)
               \<and> batchProgress_current s' = (i + CHUNK_SIZE) div CHUNK_SIZE + Suc k" for s' :: AppState
      proof -
        from that obtain k where k: "k < length (chunks_from (i + CHUNK_SIZE) imgs)"
          "requests s' = requests s1 @ take (Suc k) (chunks_from (i + CHUNK_SIZE) imgs)"
          "batchProgress_current s' = (i + CHUNK_SIZE) div CHUNK_SIZE + Suc k" by blast
        have "Suc k < length (chunks_from i imgs)" using k(1) cf by simp
        moreover have "requests s' = requests s @ take (Suc (Suc k)) (chunks_from i imgs)"
          using k(2) s1(2) cf by simp
        moreover have "batchProgress_current s' = i div CHUNK_SIZE + Suc (Suc k)"
          using k(3) by (simp add: CHUNK_SIZE_def)
        ultimately show ?thesis by blast
      qed
      show ?thesis
      proof (cases "batch_loop env imgs (i + CHUNK_SIZE) s1")
        case n: (Normal s')
        then show ?thesis using ih bl s1 cf by (auto intro: ui_frame_trans)
      next
        case t: (Throws e s')
        then show ?thesis using ih bl s1(1) shift [of s'] by (auto intro: ui_frame_trans)
      next
        case h: (Hangs s')
        then show ?thesis using ih bl s1(1) shift [of s'] by (auto intro: ui_frame_trans)
      qed
    next
      case (Throws e s1)
      have bl: "batch_loop env imgs i s = Throws e s1"
        using True Throws by (simp add: batch_loop.simps [of env imgs i s] chunk_def)
      have "0 < length (chunks_from i imgs)" using cf by simp
      then show ?thesis using bl pf Throws cf by (auto intro!: exI [of _ 0])
    next
      case (Hangs s1)
      have bl: "batch_loop env imgs i s = Hangs s1"
        using True Hangs by (simp add: batch_loop.simps [of env imgs i s] chunk_def)
      have "0 < length (chunks_from i imgs)" using cf by simp
      then show ?thesis using bl pf Hangs cf by (auto intro!: exI [of _ 0])
    qed
  qed
qed

lemma batch_loop_tracked:
  assumes "inj (uuidv4 env)" and "drafts_tracked env lo s mem" and "lo \<le> uuid_count s"
  shows "\<exists>new. draftCases (state_of (batch_loop env imgs i s)) = draftCases s @ new
           \<and> drafts_tracked env lo (state_of (batch_loop env imgs i s)) (mem @ new)"
  using assms
proof (induction env imgs i s arbitrary: mem rule: batch_loop.induct)
  case (1 env imgs i s)
  show ?case
  proof (cases "i < length imgs")
    case False
    then have "batch_loop env imgs i s = Normal s" by (simp add: batch_loop.simps [of env imgs i s])
    then show ?thesis using "1.prems"(2) by (intro exI [of _ "[]"]) simp
  next
    case True
    define chunk where "chunk = slice i (i + CHUNK_SIZE) imgs"
    from process_chunk_tracked [OF "1.prems", of i chunk]
    obtain new1 where n1: "draftCases (state_of (process_chunk env i chunk s)) = draftCases s @ new1"
        "drafts_tracked env lo (state_of (process_chunk env i chunk s)) (mem @ new1)"
      by blast
    show ?thesis
    proof (cases "process_chunk env i chunk s")
      case (Normal s1)
      have bl: "batch_loop env imgs i s = batch_loop env imgs (i + CHUNK_SIZE) s1"
        using True Normal by (simp add: batch_loop.simps [of env imgs i s] chunk_def)
      have "ui_frame s s1" using process_chunk_frame [of s env i chunk] Normal by simp
      then have lo: "lo \<le> uuid_count s1" using "1.prems"(3) by (simp add: ui_frame_def)
      have t1: "drafts_tracked env lo s1 (mem @ new1)" using n1(2) Normal by simp
      from "1.IH" [OF True _ "1.prems"(1) t1 lo] Normal
      obtain new2 where n2:
          "draftCases (state_of (batch_loop env imgs (i + CHUNK_SIZE) s1)) = draftCases s1 @ new2"
          "drafts_tracked env lo (state_of (batch_loop env imgs (i + CHUNK_SIZE) s1)) ((mem @ new1) @ new2)"
        by (auto simp: chunk_def)
      have "draftCases s1 = draftCases s @ new1" using n1(1) Normal by simp
      then show ?thesis
        using n2 bl by (intro exI [of _ "new1 @ new2"]) simp
    next
      case (Throws e s1)
      have "batch_loop env imgs i s = Throws e s1"
        using True Throws by (simp add: batch_loop.simps [of env imgs i s] chunk_def)
      then show ?thesis using n1 Throws by auto
    next
      case (Hangs s1)
      have "batch_loop env imgs i s = Hangs s1"
        using True Hangs by (simp add: batch_loop.simps [of env imgs i s] chunk_def)
      then show ?thesis using n1 Hangs by auto
    qed
  qed
qed

lemma drafts_tracked_persisted:
  "drafts_tracked env lo s ds \<Longrightarrow> d \<in> set ds \<Longrightarrow> persisted (db_drafts s) d"
  by (auto simp: drafts_tracked_def persisted_def)

lemma notification_distinct: "failure_notification \<noteq> success_notification"
  by (simp add: failure_notification_def success_notification_def)

section \<open>Properties of the image regions of a response\<close>

lemma array_get_nat: "j < length xs \<Longrightarrow> array_get xs (of_nat j) = Some (xs ! j)"
  by (simp add: array_get_def)

lemma array_get_None: "\<not> (\<exists>j < length xs. i = of_nat j) \<Longrightarrow> array_get xs i = None"
proof (rule ccontr)
  assume a: "\<not> (\<exists>j < length xs. i = of_nat j)" and "array_get xs i \<noteq> None"
  then have i: "of_int \<lfloor>i\<rfloor> = i" "0 \<le> i" "nat \<lfloor>i\<rfloor> < length xs"
    by (simp_all add: array_get_def split: if_splits)
  have "i = of_nat (nat \<lfloor>i\<rfloor>)" using i(1,2) by (metis of_nat_nat zero_le_floor)
  then show False using a i(3) by blast
qed

lemma image_callback_record:
  assumes "image_callback env chunk imgInfo s = Some (Some r, s')"
  shows "\<exists>p box px. source_page chunk imgInfo = Some p \<and> box_2d imgInfo = Some box
           \<and> cropPixels env (data p) (qtype p) box = Some px
           \<and> url r = ''data:'' @ qtype p @ '';base64,'' @ px
           \<and> fileName r = ''Auto_'' @ name p
           \<and> type r = (if ai_type imgInfo = Some ImageType_IHC then ImageType_IHC else ImageType_HE)
           \<and> magnification r = or_else (ai_magnification imgInfo) Magnification_OTHER
           \<and> description r = or_else (ai_description imgInfo) []"
  using assms by (auto simp: image_callback_def split: option.splits)

lemma image_callback_dropped:
  "source_page chunk imgInfo = None \<or> box_2d imgInfo = None
     \<Longrightarrow> image_callback env chunk imgInfo s = Some (None, s)"
  by (auto simp: image_callback_def split: option.splits)

lemma process_case_images:
  assumes "process_case env chunk (Some aiCase) (s, ds) = Normal (s', ds')"
  shows "\<exists>xs s1. all_images env chunk (case detectedImages aiCase of None \<Rightarrow> [] | Some rs \<Rightarrow> rs) s
                     = Some (xs, s1)
            \<and> ds' \<noteq> [] \<and> images (last ds') = List.map_filter (\<lambda>r. r) xs"
  using assms
  by (auto simp: process_case_def Let_def saveToDB_def split: option.splits prod.splits)


lemma enum_values_distinct: "ImageType_HE \<noteq> ImageType_IHC"
  by (simp add: ImageType_HE_def ImageType_IHC_def)


section \<open>Properties of the loop over chunks\<close>

lemma slice_take: "e \<le> m \<Longrightarrow> slice b e (take m xs) = slice b e xs"
  by (simp add: slice_def drop_take min_def)

lemma chunks_from_map:
  "chunks_from i xs
     = map (\<lambda>j. slice (i + CHUNK_SIZE * j) (i + CHUNK_SIZE * j + CHUNK_SIZE) xs)
         [0 ..< (length xs - i + 1) div 2]"
proof (induction i xs rule: chunks_from.induct)
  case (1 i xs)
  show ?case
  proof (cases "i < length xs")
    case True
    have n: "(length xs - i + 1) div 2 = Suc ((length xs - (i + CHUNK_SIZE) + 1) div 2)"
      using True by (simp add: CHUNK_SIZE_def) arith
    have "chunks_from i xs = slice i (i + CHUNK_SIZE) xs # chunks_from (i + CHUNK_SIZE) xs"
      using True by (subst chunks_from.simps) simp
    also have "\<dots> = slice i (i + CHUNK_SIZE) xs
        # map (\<lambda>j. slice (i + CHUNK_SIZE + CHUNK_SIZE * j) (i + CHUNK_SIZE + CHUNK_SIZE * j + CHUNK_SIZE) xs)
            [0 ..< (length xs - (i + CHUNK_SIZE) + 1) div 2]"
      using "1" True by simp
    also have "\<dots> = map (\<lambda>j. slice (i + CHUNK_SIZE * j) (i + CHUNK_SIZE * j + CHUNK_SIZE) xs)
         [0 ..< (length xs - i + 1) div 2]"
      by (simp only: n map_upt_Suc) (simp add: add.assoc)
    finally show ?thesis .
  next
    case False
    then show ?thesis by (subst chunks_from.simps) simp
  qed
qed

lemma chunks_from_chunk_at:
  "chunks_from 0 xs = map (chunk_at xs) [0 ..< (length xs + 1) div 2]"
  by (simp add: chunks_from_map chunk_at_def)

lemma chunk_at_take: "j < k \<Longrightarrow> chunk_at (take (CHUNK_SIZE * k) xs) j = chunk_at xs j"
  unfolding chunk_at_def by (rule slice_take) (simp add: CHUNK_SIZE_def)

lemma chunks_from_take:
  assumes "CHUNK_SIZE * k \<le> length xs"
  shows "chunks_from 0 (take (CHUNK_SIZE * k) xs) = map (chunk_at xs) [0 ..< k]"
proof -
  have "(length (take (CHUNK_SIZE * k) xs) + 1) div 2 = k"
    using assms by (simp add: CHUNK_SIZE_def min_def)
  then have "chunks_from 0 (take (CHUNK_SIZE * k) xs)
      = map (chunk_at (take (CHUNK_SIZE * k) xs)) [0 ..< k]"
    by (simp only: chunks_from_chunk_at)
  also have "\<dots> = map (chunk_at xs) [0 ..< k]"
    by (rule map_cong) (simp_all add: chunk_at_take)
  finally show ?thesis .
qed

lemma batch_loop_abort_split:
  assumes "batch_loop env imgs i s = out" and "\<forall>s'. out \<noteq> Normal s'" and "even i"
  shows "\<exists>k s_k. i \<le> CHUNK_SIZE * k \<and> CHUNK_SIZE * k < length imgs
           \<and> batch_loop env (take (CHUNK_SIZE * k) imgs) i s = Normal s_k
           \<and> process_chunk env (CHUNK_SIZE * k) (chunk_at imgs k) s_k = out"
  using assms
proof (induction env imgs i s rule: batch_loop.induct)
  case (1 env imgs i s)
  have lt: "i < length imgs"
    using "1.prems"(1,2) by (auto simp: batch_loop.simps [of env imgs i s] split: if_splits)
  from "1.prems"(3) obtain a where a: "i = CHUNK_SIZE * a" by (auto simp: CHUNK_SIZE_def elim: evenE)
  have chunk: "slice i (i + CHUNK_SIZE) imgs = chunk_at imgs a" by (simp add: chunk_at_def a)
  show ?case
  proof (cases "process_chunk env i (chunk_at imgs a) s")
    case (Normal s1)
    then have "batch_loop env imgs (i + CHUNK_SIZE) s1 = out"
      using "1.prems"(1) lt chunk by (simp add: batch_loop.simps [of env imgs i s])
    moreover have "even (i + CHUNK_SIZE)" using "1.prems"(3) by (simp add: CHUNK_SIZE_def)
    ultimately obtain k s_k where k: "i + CHUNK_SIZE \<le> CHUNK_SIZE * k" "CHUNK_SIZE * k < length imgs"
        "batch_loop env (take (CHUNK_SIZE * k) imgs) (i + CHUNK_SIZE) s1 = Normal s_k"
        "process_chunk env (CHUNK_SIZE * k) (chunk_at imgs k) s_k = out"
      using "1.IH" [OF lt _ _ "1.prems"(2), of s1] Normal chunk by auto
    have "slice i (i + CHUNK_SIZE) (take (CHUNK_SIZE * k) imgs) = chunk_at imgs a"
      using k(1) chunk by (simp add: slice_take)
    moreover have "i < length (take (CHUNK_SIZE * k) imgs)"
      using k(1,2) by (simp add: CHUNK_SIZE_def)
    ultimately have "batch_loop env (take (CHUNK_SIZE * k) imgs) i s = Normal s_k"
      using Normal k(3) by (simp add: batch_loop.simps [of env "take (CHUNK_SIZE * k) imgs" i s])
    moreover have "i \<le> CHUNK_SIZE * k" using k(1) by simp
    ultimately show ?thesis using k(2,4) by blast
  next
    case (Throws e' s1)
    then have "out = Throws e' s1"
      using "1.prems"(1) lt chunk by (simp add: batch_loop.simps [of env imgs i s])
    moreover have "batch_loop env (take (CHUNK_SIZE * a) imgs) i s = Normal s"
      unfolding a by (subst batch_loop.simps) simp
    ultimately show ?thesis using Throws a lt by (intro exI [of _ a] exI [of _ s]) simp
  next
    case (Hangs s1)
    then have "out = Hangs s1"
      using "1.prems"(1) lt chunk by (simp add: batch_loop.simps [of env imgs i s])
    moreover have "batch_loop env (take (CHUNK_SIZE * a) imgs) i s = Normal s"
      unfolding a by (subst batch_loop.simps) simp
    ultimately show ?thesis using Hangs a lt by (intro exI [of _ a] exI [of _ s]) simp
  qed
qed

lemma process_chunk_abort_drafts:
  assumes "process_chunk env i chunk s = Throws e s' \<or> process_chunk env i chunk s = Hangs s'"
  shows "draftCases s' = draftCases s"
proof -
  define s2 where "s2 = s\<lparr>batchProgress_current := i div CHUNK_SIZE + 1, requests := requests s @ [chunk]\<rparr>"
  have d: "draftCases s2 = draftCases s" by (simp add: s2_def)
  show ?thesis
  proof (cases "generateContent env (i div CHUNK_SIZE) chunk")
    case None
    then show ?thesis using assms by (auto simp: process_chunk_def)
  next
    case (Some r)
    show ?thesis
    proof (cases r)
      case (Inl e')
      then show ?thesis using assms Some by (auto simp: process_chunk_def)
    next
      case (Inr cases)
      note fr = process_cases_frame [of s2 env chunk cases "[]"]
      show ?thesis
      proof (cases "process_cases env chunk cases (s2, [])")
        case (Normal acc)
        then show ?thesis using assms Some Inr
          by (auto simp: process_chunk_def s2_def split: prod.splits)
      next
        case (Throws e' t)
        then have "s' = t" using assms Some Inr by (auto simp: process_chunk_def s2_def)
        then show ?thesis using fr Throws d by (simp add: case_frame_def)
      next
        case (Hangs t)
        then have "s' = t" using assms Some Inr by (auto simp: process_chunk_def s2_def)
        then show ?thesis using fr Hangs d by (simp add: case_frame_def)
      qed
    qed
  qed
qed

lemma responsive_crop: "responsive env \<Longrightarrow> cropPixels env d t box \<noteq> None"
  by (simp add: responsive_def)

lemma responsive_reply:
  "responsive env \<Longrightarrow> \<exists>cases. generateContent env n chunk = Some (Inr cases) \<and> None \<notin> set cases"
  by (simp add: responsive_def)

lemma image_callback_responsive:
  "responsive env \<Longrightarrow> image_callback env chunk r s \<noteq> None"
  using responsive_crop [of env "data (the (source_page chunk r))" "qtype (the (source_page chunk r))"
      "the (box_2d r)"]
  by (auto simp: image_callback_def split: option.splits)

lemma all_images_responsive:
  "responsive env \<Longrightarrow> \<exists>rs s'. all_images env chunk ds s = Some (rs, s')"
proof (induction ds arbitrary: s)
  case Nil
  show ?case by simp
next
  case (Cons d ds)
  from image_callback_responsive [OF Cons.prems, of chunk d s]
  obtain r s1 where r: "image_callback env chunk d s = Some (r, s1)" by (cases "image_callback env chunk d s") auto
  from Cons.IH [OF Cons.prems, of s1]
  obtain rs s2 where "all_images env chunk ds s1 = Some (rs, s2)" by blast
  then show ?case using r by simp
qed

lemma process_case_responsive:
  assumes "responsive env" and "user s \<noteq> None"
  shows "\<exists>s' ds'. process_case env chunk (Some aiCase) (s, ds) = Normal (s', ds')"
proof -
  define regions where "regions = (case detectedImages aiCase of None \<Rightarrow> [] | Some ds \<Rightarrow> ds)"
  from all_images_responsive [OF assms(1), of chunk regions s]
  obtain rs s1 where ai: "all_images env chunk regions s = Some (rs, s1)" by blast
  have "user s1 = user s" using all_images_frame [OF ai] by (simp add: case_frame_def ui_frame_def)
  then obtain u where "user s1 = Some u" using assms(2) by auto
  then show ?thesis
    using ai [unfolded regions_def]
    by (simp add: process_case_def Let_def saveToDB_def split: prod.splits)
qed

lemma process_cases_responsive:
  assumes "responsive env" and "user s \<noteq> None" and "None \<notin> set cs"
  shows "\<exists>acc. process_cases env chunk cs (s, ds) = Normal acc"
  using assms
proof (induction cs arbitrary: s ds)
  case Nil
  show ?case by simp
next
  case (Cons c cs)
  from Cons.prems(3) obtain aiCase where c: "c = Some aiCase" by (cases c) auto
  from process_case_responsive [OF Cons.prems(1,2), of chunk aiCase ds]
  obtain s1 ds1 where pc: "process_case env chunk c (s, ds) = Normal (s1, ds1)" using c by blast
  have "user s1 = user s"
    using process_case_Normal [OF pc] by (auto simp: case_frame_def ui_frame_def)
  then have "\<exists>acc. process_cases env chunk cs (s1, ds1) = Normal acc"
    using Cons.IH [of s1 ds1] Cons.prems by simp
  then show ?case using pc by simp
qed

lemma process_chunk_responsive:
  assumes "responsive env" and "user s \<noteq> None"
  shows "\<exists>s'. process_chunk env i chunk s = Normal s'"
proof -
  from responsive_reply [OF assms(1), of "i div CHUNK_SIZE" chunk]
  obtain cases where g: "generateContent env (i div CHUNK_SIZE) chunk = Some (Inr cases)"
      "None \<notin> set cases" by blast
  define s2 where "s2 = s\<lparr>batchProgress_current := i div CHUNK_SIZE + 1, requests := requests s @ [chunk]\<rparr>"
  have "user s2 \<noteq> None" using assms(2) by (simp add: s2_def)
  from process_cases_responsive [OF assms(1) this g(2), of chunk "[]"]
  obtain acc where "process_cases env chunk cases (s2, []) = Normal acc" by blast
  then show ?thesis using g(1) by (cases acc) (simp add: process_chunk_def s2_def)
qed

lemma batch_loop_responsive:
  assumes "responsive env" and "user s \<noteq> None"
  shows "\<exists>s'. batch_loop env imgs i s = Normal s'"
  using assms
proof (induction env imgs i s rule: batch_loop.induct)
  case (1 env imgs i s)
  show ?case
  proof (cases "i < length imgs")
    case False
    then show ?thesis by (simp add: batch_loop.simps [of env imgs i s])
  next
    case True
    from process_chunk_responsive [OF "1.prems", of i "slice i (i + CHUNK_SIZE) imgs"]
    obtain s1 where pc: "process_chunk env i (slice i (i + CHUNK_SIZE) imgs) s = Normal s1" by blast
    have "user s1 = user s"
      using process_chunk_frame [of s env i "slice i (i + CHUNK_SIZE) imgs"] pc by (simp add: ui_frame_def)
    then have "\<exists>s'. batch_loop env imgs (i + CHUNK_SIZE) s1 = Normal s'"
      using "1.IH" [OF True pc] "1.prems" by simp
    then show ?thesis using True pc by (simp add: batch_loop.simps [of env imgs i s])
  qed
qed

lemma batch_loop_progress:
  assumes "batch_loop env imgs i s = Normal s'" and "even i" and "i < length imgs"
  shows "batchProgress_current s' = (length imgs + 1) div 2"
  using assms
proof (induction env imgs i s rule: batch_loop.induct)
  case (1 env imgs i s)
  obtain s1 where pc: "process_chunk env i (slice i (i + CHUNK_SIZE) imgs) s = Normal s1"
      and rest: "batch_loop env imgs (i + CHUNK_SIZE) s1 = Normal s'"
    using "1.prems"(1,3)
    by (cases "process_chunk env i (slice i (i + CHUNK_SIZE) imgs) s")
       (simp_all add: batch_loop.simps [of env imgs i s])
  have p1: "batchProgress_current s1 = i div CHUNK_SIZE + 1"
    using process_chunk_frame [of s env i "slice i (i + CHUNK_SIZE) imgs"] pc by simp
  show ?case
  proof (cases "i + CHUNK_SIZE < length imgs")
    case True
    show ?thesis
      using "1.IH" [OF "1.prems"(3) pc rest _ True] "1.prems"(2) by (simp add: CHUNK_SIZE_def)
  next
    case False
    then have "s' = s1" using rest by (simp add: batch_loop.simps [of env imgs "i + CHUNK_SIZE" s1])
    moreover have "i div CHUNK_SIZE + 1 = (length imgs + 1) div 2"
      using False "1.prems"(2,3) by (auto simp: CHUNK_SIZE_def elim!: evenE)
    ultimately show ?thesis using p1 by simp
  qed
qed

lemma length_chunk_at:
  "CHUNK_SIZE * j < length xs \<Longrightarrow> 0 < length (chunk_at xs j) \<and> length (chunk_at xs j) \<le> CHUNK_SIZE"
  by (simp add: chunk_at_def slice_def CHUNK_SIZE_def)

lemma concat_chunk_at: "concat (map (chunk_at xs) [0 ..< m]) = take (CHUNK_SIZE * m) xs"
proof (induction m)
  case 0
  show ?case by simp
next
  case (Suc m)
  have "take (CHUNK_SIZE * Suc m) xs = take (CHUNK_SIZE * m) xs @ chunk_at xs m"
    using take_add [of "CHUNK_SIZE * m" CHUNK_SIZE xs] by (simp add: chunk_at_def slice_def add.commute)
  then show ?case using Suc by simp
qed

lemma take_chunks_from:
  assumes "m \<le> (length xs + 1) div 2"
  shows "take m (chunks_from 0 xs) = map (chunk_at xs) [0 ..< m]"
  using assms by (simp add: chunks_from_chunk_at take_map)

lemma batch_loop_sent:
  assumes "0 < length imgs"
  shows "\<exists>m. 1 \<le> m \<and> m \<le> (length imgs + 1) div 2
           \<and> requests (state_of (batch_loop env imgs 0 s)) = requests s @ map (chunk_at imgs) [0 ..< m]
           \<and> batchProgress_current (state_of (batch_loop env imgs 0 s)) = m
           \<and> (\<forall>s'. batch_loop env imgs 0 s = Normal s' \<longrightarrow> m = (length imgs + 1) div 2)"
proof (cases "batch_loop env imgs 0 s")
  case (Normal s')
  have "requests s' = requests s @ map (chunk_at imgs) [0 ..< (length imgs + 1) div 2]"
    using batch_loop_frame [of s env imgs 0] Normal by (simp add: chunks_from_chunk_at)
  moreover have "batchProgress_current s' = (length imgs + 1) div 2"
    using batch_loop_progress [OF Normal _ assms] by simp
  moreover have "1 \<le> (length imgs + 1) div 2" using assms by arith
  ultimately show ?thesis using Normal by (intro exI [of _ "(length imgs + 1) div 2"]) simp
next
  case (Throws e s')
  then obtain k where k: "k < (length imgs + 1) div 2"
      "requests s' = requests s @ take (Suc k) (chunks_from 0 imgs)"
      "batchProgress_current s' = Suc k"
    using batch_loop_frame [of s env imgs 0] by (auto simp: length_chunks_from)
  then show ?thesis using Throws by (intro exI [of _ "Suc k"]) (simp add: take_chunks_from)
next
  case (Hangs s')
  then obtain k where k: "k < (length imgs + 1) div 2"
      "requests s' = requests s @ take (Suc k) (chunks_from 0 imgs)"
      "batchProgress_current s' = Suc k"
    using batch_loop_frame [of s env imgs 0] by (auto simp: length_chunks_from)
  then show ?thesis using Hangs by (intro exI [of _ "Suc k"]) (simp add: take_chunks_from)
qed

lemma image_callback_expected:
  "image_callback env chunk r s = Some (x, s')
     \<Longrightarrow> map_option (\<lambda>r. (fileName r, url r)) x = expected_image env chunk r"
  by (auto simp: image_callback_def expected_image_def split: option.splits)

lemma all_images_expected:
  "all_images env chunk regions s = Some (xs, s')
     \<Longrightarrow> map (\<lambda>r. (fileName r, url r)) (List.map_filter (\<lambda>r. r) xs)
          = List.map_filter (expected_image env chunk) regions"
proof (induction regions arbitrary: s xs s')
  case Nil
  then show ?case by simp
next
  case (Cons r regions)
  from Cons.prems obtain x s1 ys where
    1: "image_callback env chunk r s = Some (x, s1)"
    and 2: "all_images env chunk regions s1 = Some (ys, s')" and xs: "xs = x # ys"
    by (auto split: option.splits)
  show ?case
    using Cons.IH [OF 2] image_callback_expected [OF 1, symmetric] xs
    by (cases x) simp_all
qed

lemma process_case_draft_images:
  assumes "process_case env chunk c (s, ds) = Normal (s', ds')"
  shows "\<exists>d. ds' = ds @ [d] \<and> draft_images d = case_images env chunk c"
proof -
  from assms obtain aiCase where c: "c = Some aiCase"
    by (cases c) (simp_all add: process_case_def)
  from process_case_Normal [OF assms] obtain d where d: "ds' = ds @ [d]" by blast
  from process_case_images [OF assms [unfolded c]] obtain xs s1 where
    ai: "all_images env chunk (case detectedImages aiCase of None \<Rightarrow> [] | Some rs \<Rightarrow> rs) s = Some (xs, s1)"
    and im: "images (last ds') = List.map_filter (\<lambda>r. r) xs"
    by blast
  have "images d = List.map_filter (\<lambda>r. r) xs" using im d by simp
  then have "draft_images d = case_images env chunk c"
    using all_images_expected [OF ai] c by (simp add: draft_images_def case_images_def)
  then show ?thesis using d by blast
qed

lemma process_cases_draft_images:
  "process_cases env chunk cs (s, ds) = Normal (s', ds')
     \<Longrightarrow> map draft_images ds' = map draft_images ds @ map (case_images env chunk) cs"
proof (induction cs arbitrary: s ds)
  case Nil
  then show ?case by simp
next
  case (Cons c cs)
  from Cons.prems obtain s1 ds1 where pc: "process_case env chunk c (s, ds) = Normal (s1, ds1)"
      and rest: "process_cases env chunk cs (s1, ds1) = Normal (s', ds')"
    by (cases "process_case env chunk c (s, ds)") auto
  from process_case_draft_images [OF pc] obtain d where
    "ds1 = ds @ [d]" "draft_images d = case_images env chunk c" by blast
  then show ?case using Cons.IH [OF rest] by simp
qed

lemma process_chunk_draft_images:
  assumes "process_chunk env i chunk s = Normal s'"
  shows "\<exists>cases new. generateContent env (i div CHUNK_SIZE) chunk = Some (Inr cases)
           \<and> draftCases s' = draftCases s @ new
           \<and> map draft_images new = map (case_images env chunk) cases"
proof -
  define s2 where "s2 = s\<lparr>batchProgress_current := i div CHUNK_SIZE + 1, requests := requests s @ [chunk]\<rparr>"
  from assms obtain cases where g: "generateContent env (i div CHUNK_SIZE) chunk = Some (Inr cases)"
    by (auto simp: process_chunk_def Let_def split: option.splits sum.splits)
  from assms g obtain s3 ds where pc: "process_cases env chunk cases (s2, []) = Normal (s3, ds)"
      and s': "s' = s3\<lparr>draftCases := draftCases s3 @ ds\<rparr>"
    by (cases "process_cases env chunk cases (s2, [])") (auto simp: process_chunk_def Let_def s2_def)
  have "draftCases s3 = draftCases s"
    using process_cases_frame [of s2 env chunk cases "[]"] pc by (simp add: case_frame_def s2_def)
  then show ?thesis
    using g s' process_cases_draft_images [OF pc] by simp
qed

lemma batch_loop_draft_images:
  assumes "batch_loop env imgs i s = Normal s'" and "even i"
  shows "\<exists>new. draftCases s' = draftCases s @ new
           \<and> map draft_images new
               = concat (map (chunk_images env imgs) [i div 2 ..< (length imgs + 1) div 2])"
  using assms
proof (induction env imgs i s rule: batch_loop.induct)
  case (1 env imgs i s)
  show ?case
  proof (cases "i < length imgs")
    case False
    then have "s' = s" using "1.prems"(1) by (simp add: batch_loop.simps [of env imgs i s])
    moreover have "(length imgs + 1) div 2 \<le> i div 2"
      using False "1.prems"(2) by (auto elim!: evenE)
    ultimately show ?thesis by simp
  next
    case True
    from "1.prems"(2) obtain a where a: "i = CHUNK_SIZE * a" by (auto simp: CHUNK_SIZE_def elim: evenE)
    have chunk: "slice i (i + CHUNK_SIZE) imgs = chunk_at imgs a" by (simp add: chunk_at_def a)
    have ia: "i div 2 = a" "i div CHUNK_SIZE = a" by (simp_all add: a CHUNK_SIZE_def)
    obtain s1 where pc: "process_chunk env i (slice i (i + CHUNK_SIZE) imgs) s = Normal s1"
        and rest: "batch_loop env imgs (i + CHUNK_SIZE) s1 = Normal s'"
      using "1.prems"(1) True
      by (cases "process_chunk env i (slice i (i + CHUNK_SIZE) imgs) s")
         (simp_all add: batch_loop.simps [of env imgs i s])
    from process_chunk_draft_images [OF pc] obtain cases new1 where
      c: "generateContent env a (chunk_at imgs a) = Some (Inr cases)"
         "draftCases s1 = draftCases s @ new1"
         "map draft_images new1 = map (case_images env (chunk_at imgs a)) cases"
      by (auto simp: chunk ia)
    have ci: "chunk_images env imgs a = map draft_images new1"
      using c(1,3) by (simp add: chunk_images_def)
    have "even (i + CHUNK_SIZE)" using "1.prems"(2) by (simp add: CHUNK_SIZE_def)
    from "1.IH" [OF True pc rest this] obtain new2 where
      n2: "draftCases s' = draftCases s1 @ new2"
          "map draft_images new2
             = concat (map (chunk_images env imgs) [Suc a ..< (length imgs + 1) div 2])"
      by (auto simp: a CHUNK_SIZE_def)
    have "a < (length imgs + 1) div 2" using True a by (simp add: CHUNK_SIZE_def)
    then have "[i div 2 ..< (length imgs + 1) div 2] = a # [Suc a ..< (length imgs + 1) div 2]"
      by (simp add: ia upt_conv_Cons)
    then show ?thesis
      using n2 c(2) ci by (intro exI [of _ "new1 @ new2"]) simp
  qed
qed

lemma chunk_images_take:
  "j < k \<Longrightarrow> chunk_images env (take (CHUNK_SIZE * k) imgs) j = chunk_images env imgs j"
  by (simp add: chunk_images_def chunk_at_take split: option.splits sum.splits)

lemma batch_loop_abort_draft_images:
  assumes "batch_loop env imgs 0 s = out" and "\<forall>s'. out \<noteq> Normal s'"
  shows "\<exists>k new. batchProgress_current (state_of out) = Suc k
           \<and> draftCases (state_of out) = draftCases s @ new
           \<and> map draft_images new = concat (map (chunk_images env imgs) [0 ..< k])"
proof -
  from batch_loop_abort_split [OF assms] obtain k s_k where
    k: "CHUNK_SIZE * k < length imgs"
       "batch_loop env (take (CHUNK_SIZE * k) imgs) 0 s = Normal s_k"
       "process_chunk env (CHUNK_SIZE * k) (chunk_at imgs k) s_k = out"
    by auto
  have d: "draftCases (state_of out) = draftCases s_k"
  proof (cases out)
    case (Normal s2)
    then show ?thesis using assms(2) by simp
  next
    case (Throws e s2)
    then show ?thesis
      using process_chunk_abort_drafts [of env "CHUNK_SIZE * k" "chunk_at imgs k" s_k e s2] k(3) by simp
  next
    case (Hangs s2)
    then show ?thesis
      using process_chunk_abort_drafts [of env "CHUNK_SIZE * k" "chunk_at imgs k" s_k _ s2] k(3) by simp
  qed
  have p: "batchProgress_current (state_of out) = Suc k"
    using process_chunk_frame [of s_k env "CHUNK_SIZE * k" "chunk_at imgs k"] k(3)
    by (simp add: CHUNK_SIZE_def)
  have "(length (take (CHUNK_SIZE * k) imgs) + 1) div 2 = k"
    using k(1) by (simp add: CHUNK_SIZE_def min_def)
  with batch_loop_draft_images [OF k(2)] obtain new where
    new: "draftCases s_k = draftCases s @ new"
         "map draft_images new
            = concat (map (chunk_images env (take (CHUNK_SIZE * k) imgs)) [0 ..< k])"
    by auto
  have "map (chunk_images env (take (CHUNK_SIZE * k) imgs)) [0 ..< k]
      = map (chunk_images env imgs) [0 ..< k]"
    by (rule map_cong) (simp_all add: chunk_images_take)
  with new(2) have "map draft_images new = concat (map (chunk_images env imgs) [0 ..< k])"
    by (simp only:)
  then show ?thesis using new(1) d p by auto
qed

lemma begin_batch_fields:
  "notifications (begin_batch imgs s) = notifications s"
  "queuedImages (begin_batch imgs s) = queuedImages s"
  "requests (begin_batch imgs s) = requests s"
  "draftCases (begin_batch imgs s) = draftCases s"
  "db_drafts (begin_batch imgs s) = db_drafts s"
  "uuid_count (begin_batch imgs s) = uuid_count s"
  "user (begin_batch imgs s) = user s"
  "batchProgress_total (begin_batch imgs s) = nat \<lceil>(of_nat (length imgs) :: rat) / of_nat CHUNK_SIZE\<rceil>"
  by (simp_all add: begin_batch_def)

lemma processBatchSequentially_unfold:
  assumes "0 < length (filter selected (queuedImages s))"
  shows "processBatchSequentially env s =
      (case batch_loop env (filter selected (queuedImages s)) 0
              (begin_batch (filter selected (queuedImages s)) s) of
         Normal s2 \<Rightarrow> Normal (s2\<lparr>queuedImages := [],
                           notifications := notifications s2 @ [success_notification],
                           isAIProcessing := False\<rparr>)
       | Throws e s2 \<Rightarrow> Normal (s2\<lparr>notifications := notifications s2 @ [failure_notification],
                           isAIProcessing := False\<rparr>)
       | Hangs s2 \<Rightarrow> Hangs s2)"
  using assms by (simp add: processBatchSequentially_def Let_def)


text \<open>
  C1. For a selection of \<open>N > 0\<close> queued pages, the requests a run of the batch
  orchestrator sends are, in order, the slices \<open>[2 j, 2 j + 2)\<close> of the selection for
  \<open>j = 0, 1, \<dots>\<close>: at least one and at most \<open>\<lceil>N / 2\<rceil>\<close> of them, as many as the progress
  counter shows, each of one or two pages, and together an initial part of the selection
  in its original order. \<open>\<lceil>N / 2\<rceil>\<close> is the progress total of the run. A run that ends
  with the success notification has sent exactly \<open>\<lceil>N / 2\<rceil>\<close> chunks, whose concatenation
  is the whole selection. When the service answers every request with well-formed
  cases, every crop resolves and a user is logged in, the run does end that way, with
  the queue emptied.
\<close>

theorem batch_chunking:
  assumes "imagesToProcess = filter selected (queuedImages s)"
    and "0 < length imagesToProcess"
    and "s' = state_of (processBatchSequentially env s)"
    and "sent = drop (length (requests s)) (requests s')"
  shows "requests s' = requests s @ sent
       \<and> sent = map (chunk_at imagesToProcess) [0 ..< length sent]
       \<and> 1 \<le> length sent
       \<and> length sent \<le> nat \<lceil>(of_nat (length imagesToProcess) :: rat) / of_nat CHUNK_SIZE\<rceil>
       \<and> batchProgress_current s' = length sent
       \<and> batchProgress_total s' = nat \<lceil>(of_nat (length imagesToProcess) :: rat) / of_nat CHUNK_SIZE\<rceil>
       \<and> (\<forall>c \<in> set sent. 0 < length c \<and> length c \<le> CHUNK_SIZE)
       \<and> concat sent = take (CHUNK_SIZE * length sent) imagesToProcess
       \<and> (notifications s' = notifications s @ [success_notification]
            \<longrightarrow> length sent = nat \<lceil>(of_nat (length imagesToProcess) :: rat) / of_nat CHUNK_SIZE\<rceil>
              \<and> concat sent = imagesToProcess)
       \<and> (responsive env \<and> user s \<noteq> None
            \<longrightarrow> processBatchSequentially env s = Normal s'
              \<and> notifications s' = notifications s @ [success_notification]
              \<and> queuedImages s' = [])"
proof -
  define s1 where "s1 = begin_batch imagesToProcess s"
  define out where "out = batch_loop env imagesToProcess 0 s1"
  define total where "total = (length imagesToProcess + 1) div 2"
  have ceil: "nat \<lceil>(of_nat (length imagesToProcess) :: rat) / of_nat CHUNK_SIZE\<rceil> = total"
    by (simp add: ceil_half total_def)
  have run: "processBatchSequentially env s =
      (case out of
         Normal s2 \<Rightarrow> Normal (s2\<lparr>queuedImages := [],
                           notifications := notifications s2 @ [success_notification],
                           isAIProcessing := False\<rparr>)
       | Throws e s2 \<Rightarrow> Normal (s2\<lparr>notifications := notifications s2 @ [failure_notification],
                           isAIProcessing := False\<rparr>)
       | Hangs s2 \<Rightarrow> Hangs s2)"
    using processBatchSequentially_unfold [of s env] assms(1,2) by (simp add: out_def s1_def)
  have fr: "ui_frame s1 (state_of out)"
    using batch_loop_frame [of s1 env imagesToProcess 0] by (simp add: out_def)
  have "\<exists>m. 1 \<le> m \<and> m \<le> total
      \<and> requests (state_of out) = requests s @ map (chunk_at imagesToProcess) [0 ..< m]
      \<and> batchProgress_current (state_of out) = m
      \<and> (\<forall>s2. out = Normal s2 \<longrightarrow> m = total)"
    using batch_loop_sent [OF assms(2), of env s1]
    by (simp add: out_def total_def s1_def begin_batch_fields)
  then obtain m where
    m: "1 \<le> m" "m \<le> total"
       "requests (state_of out) = requests s @ map (chunk_at imagesToProcess) [0 ..< m]"
       "batchProgress_current (state_of out) = m"
       "\<And>s2. out = Normal s2 \<Longrightarrow> m = total"
    by blast
  have st: "requests s' = requests (state_of out)"
      "batchProgress_current s' = batchProgress_current (state_of out)"
      "batchProgress_total s' = batchProgress_total (state_of out)"
    using assms(3) run by (cases out; simp)+
  have sent: "sent = map (chunk_at imagesToProcess) [0 ..< m]"
    using assms(4) st(1) m(3) by simp
  have len: "length sent = m" by (simp add: sent)
  have 1: "requests s' = requests s @ sent" using st(1) m(3) sent by simp
  have 2: "sent = map (chunk_at imagesToProcess) [0 ..< length sent]" using sent len by simp
  have 3: "1 \<le> length sent" using m(1) len by simp
  have 4: "length sent \<le> nat \<lceil>(of_nat (length imagesToProcess) :: rat) / of_nat CHUNK_SIZE\<rceil>"
    using m(2) len ceil by simp
  have 5: "batchProgress_current s' = length sent" using st(2) m(4) len by simp
  have 6: "batchProgress_total s'
      = nat \<lceil>(of_nat (length imagesToProcess) :: rat) / of_nat CHUNK_SIZE\<rceil>"
    using st(3) fr by (simp add: ui_frame_def s1_def begin_batch_fields)
  have 7: "\<forall>c \<in> set sent. 0 < length c \<and> length c \<le> CHUNK_SIZE"
  proof
    fix c assume "c \<in> set sent"
    then obtain j where j: "j < m" "c = chunk_at imagesToProcess j" by (auto simp: sent)
    have "CHUNK_SIZE * j < length imagesToProcess"
      using j(1) m(2) by (simp add: total_def CHUNK_SIZE_def; arith)
    then show "0 < length c \<and> length c \<le> CHUNK_SIZE" using length_chunk_at j(2) by simp
  qed
  have 8: "concat sent = take (CHUNK_SIZE * length sent) imagesToProcess"
    by (simp only: len) (simp only: sent concat_chunk_at)
  have 9: "notifications s' = notifications s @ [success_notification]
      \<longrightarrow> length sent = nat \<lceil>(of_nat (length imagesToProcess) :: rat) / of_nat CHUNK_SIZE\<rceil>
        \<and> concat sent = imagesToProcess"
  proof
    assume ok: "notifications s' = notifications s @ [success_notification]"
    show "length sent = nat \<lceil>(of_nat (length imagesToProcess) :: rat) / of_nat CHUNK_SIZE\<rceil>
        \<and> concat sent = imagesToProcess"
    proof (cases out)
      case (Normal s2)
      then have "m = total" using m(5) by simp
      moreover have "length imagesToProcess \<le> CHUNK_SIZE * total"
        by (simp add: total_def CHUNK_SIZE_def; arith)
      ultimately show ?thesis using 8 len ceil by simp
    next
      case (Throws e s2)
      then have "notifications s' = notifications s @ [failure_notification]"
        using run assms(3) fr by (simp add: ui_frame_def s1_def begin_batch_fields)
      then show ?thesis using ok notification_distinct by simp
    next
      case (Hangs s2)
      then have "notifications s' = notifications s"
        using run assms(3) fr by (simp add: ui_frame_def s1_def begin_batch_fields)
      then show ?thesis using ok by simp
    qed
  qed
  have 10: "responsive env \<and> user s \<noteq> None
      \<longrightarrow> processBatchSequentially env s = Normal s'
        \<and> notifications s' = notifications s @ [success_notification]
        \<and> queuedImages s' = []"
  proof
    assume r: "responsive env \<and> user s \<noteq> None"
    then have "user s1 \<noteq> None" by (simp add: s1_def begin_batch_fields)
    from batch_loop_responsive [OF _ this, of env imagesToProcess 0] r
    obtain s2 where s2: "out = Normal s2" by (auto simp: out_def)
    have "notifications s2 = notifications s"
      using fr s2 by (simp add: ui_frame_def s1_def begin_batch_fields)
    then show "processBatchSequentially env s = Normal s'
        \<and> notifications s' = notifications s @ [success_notification]
        \<and> queuedImages s' = []"
      using run assms(3) s2 by simp
  qed
  show ?thesis
    by (intro conjI) (rule 1 2 3 4 5 6 7 8 9 10)+
qed

theorem batch_chunking_witness:
  "0 < length (filter selected (queuedImages example_state))
   \<and> responsive example_ok_env \<and> user example_state \<noteq> None
   \<and> processBatchSequentially example_ok_env example_state = Normal example_ok_run
   \<and> requests example_ok_run
       = [[example_page ''p1'' True, example_page ''p3'' True], [example_page ''p4'' True]]
   \<and> concat (requests example_ok_run) = filter selected (queuedImages example_state)
   \<and> batchProgress_current example_ok_run = 2
   \<and> batchProgress_total example_ok_run = 2
   \<and> notifications example_ok_run = [success_notification]
   \<and> queuedImages example_ok_run = []"
proof -
  let ?sel = "filter selected (queuedImages example_state)"
  let ?sent = "drop (length (requests example_state)) (requests example_ok_run)"
  have sel: "?sel = [example_page ''p1'' True, example_page ''p3'' True, example_page ''p4'' True]"
    by (simp add: example_state_def example_queue_def example_page_def)
  have pos: "0 < length ?sel"
    by (simp add: sel)
  have resp: "responsive example_ok_env \<and> user example_state \<noteq> None"
    by (simp add: responsive_def example_ok_env_def example_env_def example_state_def)
  have rq: "requests example_state = []" "notifications example_state = []"
    by (simp_all add: example_state_def)
  have ceil: "nat \<lceil>(of_nat (length ?sel) :: rat) / of_nat CHUNK_SIZE\<rceil> = 2"
    using ceil_half [of 3] by (simp add: sel)
  note t = batch_chunking [OF refl pos example_ok_run_def refl]
  note t1 = t [THEN conjunct1] and r1 = t [THEN conjunct2]
  note t2 = r1 [THEN conjunct1] and r2 = r1 [THEN conjunct2]
  note r3 = r2 [THEN conjunct2]
  note r4 = r3 [THEN conjunct2]
  note t5 = r4 [THEN conjunct1] and r5 = r4 [THEN conjunct2]
  note t6 = r5 [THEN conjunct1] and r6 = r5 [THEN conjunct2]
  note r7 = r6 [THEN conjunct2]
  note r8 = r7 [THEN conjunct2]
  note t9 = r8 [THEN conjunct1] and t10 = r8 [THEN conjunct2]
  note ok = t10 [THEN mp, OF resp]
  note run = ok [THEN conjunct1]
  note note_ok = ok [THEN conjunct2, THEN conjunct1]
  note queue = ok [THEN conjunct2, THEN conjunct2]
  note all = t9 [THEN mp, OF note_ok]
  have sent: "?sent = requests example_ok_run" by (simp add: rq)
  have len: "length (requests example_ok_run) = 2"
    using all [THEN conjunct1] by (simp only: sent ceil)
  have cat: "concat (requests example_ok_run) = ?sel"
    using all [THEN conjunct2] by (simp only: sent)
  have "requests example_ok_run = map (chunk_at ?sel) [0 ..< 2]"
    using t2 by (simp only: sent len)
  also have "\<dots> = [[example_page ''p1'' True, example_page ''p3'' True], [example_page ''p4'' True]]"
    by (simp add: sel chunk_at_def slice_def CHUNK_SIZE_def upt_rec numeral_2_eq_2)
  finally have req: "requests example_ok_run
      = [[example_page ''p1'' True, example_page ''p3'' True], [example_page ''p4'' True]]" .
  have cur: "batchProgress_current example_ok_run = 2"
    using t5 by (simp only: sent len)
  have tot: "batchProgress_total example_ok_run = 2"
    using t6 by (simp only: ceil)
  have note1: "notifications example_ok_run = [success_notification]"
    using note_ok by (simp add: rq)
  show ?thesis
    by (intro conjI) (rule pos resp [THEN conjunct1] resp [THEN conjunct2] run req cat cur tot
          note1 queue)+
qed

text \<open>
  C4. When some chunk of a batch run throws (identifiers from \<open>uuidv4()\<close> being distinct),
  the run ends in the \<open>catch\<close>. With \<open>k\<close> the number of chunks completed before: the loop
  over the first \<open>k\<close> chunks ran to its end, the body of the loop threw at chunk \<open>k\<close>,
  and the requests sent are those for the chunks \<open>0, \<dots>, k\<close> and no other. The state the
  run ends in is the state at the throw with exactly one notification added, the generic
  failure, and the processing flag cleared: the page queue, the draft list and the draft
  store are as the throw left them. The draft list is the list the \<open>k\<close> completed chunks
  left, which extends the list before the run by one draft for each case of the replies
  to these chunks; each of these drafts was in the draft store under its \<open>id\<close> when the
  chunks had completed and is there, unchanged, at the end, and no key has left the
  draft store.
\<close>

theorem batch_failure_keeps_drafts:
  assumes "inj (uuidv4 env)"
    and "imagesToProcess = filter selected (queuedImages s)"
    and "batch_loop env imagesToProcess 0 (begin_batch imagesToProcess s) = Throws e s2"
  shows "\<exists>k s_k new.
           CHUNK_SIZE * k < length imagesToProcess
         \<and> batch_loop env (take (CHUNK_SIZE * k) imagesToProcess) 0 (begin_batch imagesToProcess s)
             = Normal s_k
         \<and> process_chunk env (CHUNK_SIZE * k) (chunk_at imagesToProcess k) s_k = Throws e s2
         \<and> processBatchSequentially env s
             = Normal (s2\<lparr>notifications := notifications s @ [failure_notification],
                          isAIProcessing := False\<rparr>)
         \<and> notifications s2 = notifications s
         \<and> queuedImages s2 = queuedImages s
         \<and> requests s2 = requests s @ map (chunk_at imagesToProcess) [0 ..< Suc k]
         \<and> batchProgress_current s2 = Suc k
         \<and> draftCases s2 = draftCases s_k
         \<and> draftCases s_k = draftCases s @ new
         \<and> map draft_images new = concat (map (chunk_images env imagesToProcess) [0 ..< k])
         \<and> (\<forall>d \<in> set new. persisted (db_drafts s_k) d \<and> persisted (db_drafts s2) d)
         \<and> store_keys (db_drafts s) \<subseteq> store_keys (db_drafts s_k)
         \<and> store_keys (db_drafts s_k) \<subseteq> store_keys (db_drafts s2)"
proof -
  define s1 where "s1 = begin_batch imagesToProcess s"
  have bl: "batch_loop env imagesToProcess 0 s1 = Throws e s2" using assms(3) by (simp add: s1_def)
  have ne: "0 < length imagesToProcess"
    using bl by (auto simp: batch_loop.simps [of env imagesToProcess 0])
  from batch_loop_abort_split [OF bl] obtain k s_k where
    k: "CHUNK_SIZE * k < length imagesToProcess"
       "batch_loop env (take (CHUNK_SIZE * k) imagesToProcess) 0 s1 = Normal s_k"
       "process_chunk env (CHUNK_SIZE * k) (chunk_at imagesToProcess k) s_k = Throws e s2"
    by auto
  have fr: "ui_frame s1 s2"
    using batch_loop_frame [of s1 env imagesToProcess 0] bl by simp
  have frk: "ui_frame s1 s_k"
    and rqk: "requests s_k = requests s1 @ chunks_from 0 (take (CHUNK_SIZE * k) imagesToProcess)"
    using batch_loop_frame [of s1 env "take (CHUNK_SIZE * k) imagesToProcess" 0] k(2) by simp_all
  have pf: "ui_frame s_k s2" "requests s2 = requests s_k @ [chunk_at imagesToProcess k]"
      "batchProgress_current s2 = CHUNK_SIZE * k div CHUNK_SIZE + 1"
    using process_chunk_frame [of s_k env "CHUNK_SIZE * k" "chunk_at imagesToProcess k"] k(3)
    by simp_all
  have 4: "processBatchSequentially env s
             = Normal (s2\<lparr>notifications := notifications s @ [failure_notification],
                          isAIProcessing := False\<rparr>)"
    using processBatchSequentially_unfold [of s env] ne assms(2) bl fr
    by (simp add: s1_def ui_frame_def begin_batch_fields)
  have 5: "notifications s2 = notifications s" "queuedImages s2 = queuedImages s"
    using fr by (simp_all add: ui_frame_def s1_def begin_batch_fields)
  have "requests s_k = requests s @ map (chunk_at imagesToProcess) [0 ..< k]"
    using rqk k(1) by (simp add: chunks_from_take s1_def begin_batch_fields)
  then have 7: "requests s2 = requests s @ map (chunk_at imagesToProcess) [0 ..< Suc k]"
    using pf(2) by simp
  have 8: "batchProgress_current s2 = Suc k" using pf(3) by (simp add: CHUNK_SIZE_def)
  have 9: "draftCases s2 = draftCases s_k"
    using process_chunk_abort_drafts [of env "CHUNK_SIZE * k" "chunk_at imagesToProcess k" s_k e s2] k(3)
    by simp
  have "(length (take (CHUNK_SIZE * k) imagesToProcess) + 1) div 2 = k"
    using k(1) by (simp add: CHUNK_SIZE_def min_def)
  with batch_loop_draft_images [OF k(2)] obtain new where
    new: "draftCases s_k = draftCases s @ new"
         "map draft_images new
            = concat (map (chunk_images env (take (CHUNK_SIZE * k) imagesToProcess)) [0 ..< k])"
    by (auto simp: s1_def begin_batch_fields)
  have "map (chunk_images env (take (CHUNK_SIZE * k) imagesToProcess)) [0 ..< k]
      = map (chunk_images env imagesToProcess) [0 ..< k]"
    by (rule map_cong) (simp_all add: chunk_images_take)
  with new(2) have 11: "map draft_images new = concat (map (chunk_images env imagesToProcess) [0 ..< k])"
    by (simp only:)
  have t0: "drafts_tracked env (uuid_count s1) s1 []" by (simp add: drafts_tracked_def)
  from batch_loop_tracked [OF assms(1) t0 order_refl, of "take (CHUNK_SIZE * k) imagesToProcess" 0]
  have tk: "drafts_tracked env (uuid_count s1) s_k new"
    using k(2) new(1) by (simp add: s1_def begin_batch_fields)
  from batch_loop_tracked [OF assms(1) t0 order_refl, of imagesToProcess 0]
  have t2: "drafts_tracked env (uuid_count s1) s2 new"
    using bl 9 new(1) by (simp add: s1_def begin_batch_fields)
  have 12: "\<forall>d \<in> set new. persisted (db_drafts s_k) d \<and> persisted (db_drafts s2) d"
    using drafts_tracked_persisted [OF tk] drafts_tracked_persisted [OF t2] by blast
  have 13: "store_keys (db_drafts s) \<subseteq> store_keys (db_drafts s_k)"
    using frk by (simp add: ui_frame_def s1_def begin_batch_fields)
  have 14: "store_keys (db_drafts s_k) \<subseteq> store_keys (db_drafts s2)"
    using pf(1) by (simp add: ui_frame_def)
  have k2: "batch_loop env (take (CHUNK_SIZE * k) imagesToProcess) 0 (begin_batch imagesToProcess s)
             = Normal s_k"
    using k(2) by (simp add: s1_def)
  show ?thesis
    by (intro exI [of _ k] exI [of _ s_k] exI [of _ new] conjI)
       (rule k(1) k2 k(3) 4 5 7 8 9 new(1) 11 12 13 14)+
qed

theorem batch_failure_keeps_drafts_witness:
  "inj (uuidv4 example_env)
   \<and> processBatchSequentially example_env example_state = Normal example_failed_run
   \<and> notifications example_failed_run = [failure_notification]
   \<and> queuedImages example_failed_run = example_queue
   \<and> requests example_failed_run
       = [[example_page ''p1'' True, example_page ''p3'' True], [example_page ''p4'' True]]
   \<and> batchProgress_current example_failed_run = 2
   \<and> map caseId (draftCases example_failed_run) = [''Case-3-0'']
   \<and> list_all (persisted (db_drafts example_failed_run)) (draftCases example_failed_run)"
proof -
  let ?sel = "filter selected (queuedImages example_state)"
  have inj: "inj (uuidv4 example_env)"
    by (simp add: example_env_def inj_def)
  have "case batch_loop example_env ?sel 0 (begin_batch ?sel example_state) of
          Throws e s2 \<Rightarrow> True | _ \<Rightarrow> False"
    by code_simp
  then obtain e s2 where
    "batch_loop example_env ?sel 0 (begin_batch ?sel example_state) = Throws e s2"
    by (auto split: outcome.splits)
  from batch_failure_keeps_drafts [OF inj refl this]
  obtain s_k :: AppState and new where r:
      "processBatchSequentially example_env example_state
         = Normal (s2\<lparr>notifications := notifications example_state @ [failure_notification],
                      isAIProcessing := False\<rparr>)"
      "queuedImages s2 = queuedImages example_state"
      "draftCases s2 = draftCases s_k"
      "\<forall>d \<in> set new. persisted (db_drafts s_k) d \<and> persisted (db_drafts s2) d"
      "draftCases s_k = draftCases example_state @ new"
    by (elim exE conjE) (rule that; assumption)
  define s' where "s' = s2\<lparr>notifications := notifications example_state @ [failure_notification],
                             isAIProcessing := False\<rparr>"
  have run: "processBatchSequentially example_env example_state = Normal s'"
    using r(1) by (simp only: s'_def)
  have s': "s' = example_failed_run" by (simp add: example_failed_run_def run)
  have f: "notifications s' = [failure_notification]" "queuedImages s' = example_queue"
      "draftCases s' = new" "db_drafts s' = db_drafts s2"
    using r(2,3,5) by (simp_all add: s'_def example_state_def)
  have 1: "notifications example_failed_run = [failure_notification]"
      "queuedImages example_failed_run = example_queue"
    using f(1,2) by (simp_all only: s')
  have "list_all (persisted (db_drafts s')) (draftCases s')"
    using r(4) by (simp add: f(3,4) list_all_iff)
  then have 2: "list_all (persisted (db_drafts example_failed_run)) (draftCases example_failed_run)"
    by (simp only: s')
  have 3: "requests example_failed_run
       = [[example_page ''p1'' True, example_page ''p3'' True], [example_page ''p4'' True]]"
    by code_simp
  have 4: "batchProgress_current example_failed_run = 2"
    by code_simp
  have 5: "map caseId (draftCases example_failed_run) = [''Case-3-0'']"
    by code_simp
  have 0: "processBatchSequentially example_env example_state = Normal example_failed_run"
    using run by (simp only: s')
  show ?thesis by (intro conjI) (rule inj 0 1 2 3 4 5)+
qed

text \<open>
  C5, as the code has it. The source page of a region is the page of the current chunk
  at the region's declared index, not a page of the queue: the images of the drafts a
  run appends to the draft list are, draft by draft and in order, those of the regions
  of the cases of the replies to the completed chunks, each region with its source page
  looked up in the chunk of the request it came back for. A region whose index is not
  an index of the chunk, or that has no bounding box, is dropped: the callback returns
  \<open>null\<close> and draws no identifier. A region without an index is treated as one with
  index 0, the first page of the chunk. Every record built is cropped from its source
  page and named after it.
\<close>

theorem region_index_into_chunk:
  assumes "imagesToProcess = filter selected (queuedImages s)"
    and "0 < length imagesToProcess"
    and "s' = state_of (processBatchSequentially env s)"
    and "completed = (if notifications s' = notifications s @ [success_notification]
                      then batchProgress_current s' else batchProgress_current s' - 1)"
    and "new = drop (length (draftCases s)) (draftCases s')"
  shows "draftCases s' = draftCases s @ new
   \<and> map draft_images new = concat (map (chunk_images env imagesToProcess) [0 ..< completed])
   \<and> (\<forall>i. originalImageIndex imgInfo = Some i \<and> \<not> (\<exists>j < length chunk. i = of_nat j)
         \<longrightarrow> image_callback env chunk imgInfo st = Some (None, st)
           \<and> expected_image env chunk imgInfo = None)
   \<and> (box_2d imgInfo = None
         \<longrightarrow> image_callback env chunk imgInfo st = Some (None, st)
           \<and> expected_image env chunk imgInfo = None)
   \<and> (originalImageIndex imgInfo = None
         \<longrightarrow> image_callback env chunk imgInfo st
             = image_callback env chunk (imgInfo\<lparr>originalImageIndex := Some 0\<rparr>) st
           \<and> expected_image env chunk imgInfo
             = expected_image env chunk (imgInfo\<lparr>originalImageIndex := Some 0\<rparr>))
   \<and> (\<forall>j. j < length chunk \<and> originalImageIndex imgInfo = Some (of_nat j)
         \<longrightarrow> source_page chunk imgInfo = Some (chunk ! j))
   \<and> (\<forall>r st'. image_callback env chunk imgInfo st = Some (Some r, st')
         \<longrightarrow> (\<exists>p box px. source_page chunk imgInfo = Some p \<and> box_2d imgInfo = Some box
                 \<and> cropPixels env (data p) (qtype p) box = Some px
                 \<and> url r = ''data:'' @ qtype p @ '';base64,'' @ px
                 \<and> fileName r = ''Auto_'' @ name p
                 \<and> expected_image env chunk imgInfo = Some (fileName r, url r)))"
proof -
  define s1 where "s1 = begin_batch imagesToProcess s"
  define out where "out = batch_loop env imagesToProcess 0 s1"
  have run: "processBatchSequentially env s =
      (case out of
         Normal s2 \<Rightarrow> Normal (s2\<lparr>queuedImages := [],
                           notifications := notifications s2 @ [success_notification],
                           isAIProcessing := False\<rparr>)
       | Throws e s2 \<Rightarrow> Normal (s2\<lparr>notifications := notifications s2 @ [failure_notification],
                           isAIProcessing := False\<rparr>)
       | Hangs s2 \<Rightarrow> Hangs s2)"
    using processBatchSequentially_unfold [of s env] assms(1,2) by (simp add: out_def s1_def)
  have fr: "notifications (state_of out) = notifications s"
    using batch_loop_frame [of s1 env imagesToProcess 0]
    by (simp add: out_def ui_frame_def s1_def begin_batch_fields)
  have st: "draftCases s' = draftCases (state_of out)"
      "batchProgress_current s' = batchProgress_current (state_of out)"
    using assms(3) run by (cases out; simp)+
  have "\<exists>ds. draftCases (state_of out) = draftCases s @ ds
      \<and> map draft_images ds = concat (map (chunk_images env imagesToProcess) [0 ..< completed])"
  proof (cases "\<exists>s2. out = Normal s2")
    case True
    then obtain s2 where s2: "out = Normal s2" by blast
    have bl: "batch_loop env imagesToProcess 0 s1 = Normal s2" using s2 by (simp add: out_def)
    have "notifications s' = notifications s @ [success_notification]"
      using run assms(3) s2 fr by simp
    moreover have "batchProgress_current s2 = (length imagesToProcess + 1) div 2"
      using batch_loop_progress [OF bl _ assms(2)] by simp
    ultimately have c: "completed = (length imagesToProcess + 1) div 2"
      using assms(4) st(2) s2 by simp
    from batch_loop_draft_images [OF bl] show ?thesis
      using s2 c by (simp add: s1_def begin_batch_fields)
  next
    case False
    then have ab: "\<forall>s2. out \<noteq> Normal s2" by simp
    have "notifications s' \<noteq> notifications s @ [success_notification]"
    proof (cases out)
      case (Normal s2)
      then show ?thesis using ab by simp
    next
      case (Throws e s2)
      then have "notifications s' = notifications s @ [failure_notification]"
        using run assms(3) fr by simp
      then show ?thesis using notification_distinct by simp
    next
      case (Hangs s2)
      then have "notifications s' = notifications s" using run assms(3) fr by simp
      then show ?thesis by simp
    qed
    then have c: "completed = batchProgress_current (state_of out) - 1"
      using assms(4) st(2) by simp
    from batch_loop_abort_draft_images [OF out_def [symmetric] ab] show ?thesis
      using c by (auto simp: s1_def begin_batch_fields)
  qed
  then obtain ds where ds: "draftCases s' = draftCases s @ ds"
      "map draft_images ds = concat (map (chunk_images env imagesToProcess) [0 ..< completed])"
    using st(1) by auto
  have "new = ds" using assms(5) ds(1) by simp
  then have 1: "draftCases s' = draftCases s @ new"
    and 2: "map draft_images new = concat (map (chunk_images env imagesToProcess) [0 ..< completed])"
    using ds by simp_all
  have 3: "\<forall>i. originalImageIndex imgInfo = Some i \<and> \<not> (\<exists>j < length chunk. i = of_nat j)
         \<longrightarrow> image_callback env chunk imgInfo st = Some (None, st)
           \<and> expected_image env chunk imgInfo = None"
  proof (intro allI impI)
    fix i assume "originalImageIndex imgInfo = Some i \<and> \<not> (\<exists>j < length chunk. i = of_nat j)"
    then have "source_page chunk imgInfo = None"
      by (simp add: source_page_def array_get_None)
    then show "image_callback env chunk imgInfo st = Some (None, st)
           \<and> expected_image env chunk imgInfo = None"
      by (simp add: image_callback_dropped expected_image_def)
  qed
  have 4: "box_2d imgInfo = None
         \<longrightarrow> image_callback env chunk imgInfo st = Some (None, st)
           \<and> expected_image env chunk imgInfo = None"
    by (simp add: image_callback_dropped expected_image_def split: option.splits)
  have 5: "originalImageIndex imgInfo = None
         \<longrightarrow> image_callback env chunk imgInfo st
             = image_callback env chunk (imgInfo\<lparr>originalImageIndex := Some 0\<rparr>) st
           \<and> expected_image env chunk imgInfo
             = expected_image env chunk (imgInfo\<lparr>originalImageIndex := Some 0\<rparr>)"
    by (simp add: image_callback_def expected_image_def source_page_def split: option.splits)
  have 6: "\<forall>j. j < length chunk \<and> originalImageIndex imgInfo = Some (of_nat j)
         \<longrightarrow> source_page chunk imgInfo = Some (chunk ! j)"
    by (simp add: source_page_def array_get_nat)
  have 7: "\<forall>r st'. image_callback env chunk imgInfo st = Some (Some r, st')
         \<longrightarrow> (\<exists>p box px. source_page chunk imgInfo = Some p \<and> box_2d imgInfo = Some box
                 \<and> cropPixels env (data p) (qtype p) box = Some px
                 \<and> url r = ''data:'' @ qtype p @ '';base64,'' @ px
                 \<and> fileName r = ''Auto_'' @ name p
                 \<and> expected_image env chunk imgInfo = Some (fileName r, url r))"
  proof (intro allI impI)
    fix r st' assume ic: "image_callback env chunk imgInfo st = Some (Some r, st')"
    from image_callback_record [OF ic] image_callback_expected [OF ic]
    show "\<exists>p box px. source_page chunk imgInfo = Some p \<and> box_2d imgInfo = Some box
                 \<and> cropPixels env (data p) (qtype p) box = Some px
                 \<and> url r = ''data:'' @ qtype p @ '';base64,'' @ px
                 \<and> fileName r = ''Auto_'' @ name p
                 \<and> expected_image env chunk imgInfo = Some (fileName r, url r)"
      by auto
  qed
  show ?thesis by (intro conjI) (rule 1 2 3 4 5 6 7)+
qed

theorem region_index_into_chunk_witness:
  "0 < length (filter selected (queuedImages example_state))
   \<and> map draft_images (draftCases example_ok_run)
       = [[(''Auto_p3'', ''data:image/jpeg;base64,CCCC''),
           (''Auto_p1'', ''data:image/jpeg;base64,CCCC'')]]
   \<and> originalImageIndex (example_region\<lparr>originalImageIndex := Some 2\<rparr>) = Some 2
   \<and> \<not> (\<exists>j < length [example_page ''p1'' True, example_page ''p3'' True]. (2::rat) = of_nat j)
   \<and> image_callback example_ok_env [example_page ''p1'' True, example_page ''p3'' True]
        (example_region\<lparr>originalImageIndex := Some 2\<rparr>) example_state = Some (None, example_state)
   \<and> source_page [example_page ''p1'' True, example_page ''p3'' True] example_region
       = Some (example_page ''p3'' True)"
proof -
  let ?chunk = "[example_page ''p1'' True, example_page ''p3'' True]"
  let ?sel = "filter selected (queuedImages example_state)"
  have pos: "0 < length ?sel"
    by (simp add: example_state_def example_queue_def example_page_def)
  have 1: "originalImageIndex (example_region\<lparr>originalImageIndex := Some 2\<rparr>) = Some 2"
    by simp
  have 2: "\<not> (\<exists>j < length ?chunk. (2::rat) = of_nat j)"
  proof
    assume "\<exists>j < length ?chunk. (2::rat) = of_nat j"
    then obtain j where "j < 2" "(2::rat) = of_nat j" by auto
    then have "(of_nat 2 :: rat) = of_nat j" by simp
    then have "j = 2" by (simp only: of_nat_eq_iff)
    then show False using \<open>j < 2\<close> by simp
  qed
  have 3: "(1::nat) < length ?chunk \<and> originalImageIndex example_region = Some (of_nat 1)"
    by (simp add: example_region_def)
  have dr: "draftCases example_state = []" by (simp add: example_state_def)
  have c: "(if notifications example_ok_run = notifications example_state @ [success_notification]
            then batchProgress_current example_ok_run else batchProgress_current example_ok_run - 1) = 2"
    by code_simp
  have im: "concat (map (chunk_images example_ok_env ?sel) [0 ..< 2])
      = [[(''Auto_p3'', ''data:image/jpeg;base64,CCCC''),
          (''Auto_p1'', ''data:image/jpeg;base64,CCCC'')]]"
    by code_simp
  note t = region_index_into_chunk [OF refl pos example_ok_run_def refl refl,
      where imgInfo = "example_region\<lparr>originalImageIndex := Some 2\<rparr>" and chunk = ?chunk
        and st = example_state]
  note u = region_index_into_chunk [OF refl pos example_ok_run_def refl refl,
      where imgInfo = example_region and chunk = ?chunk and st = example_state]
  have "map draft_images (drop (length (draftCases example_state)) (draftCases example_ok_run))
      = concat (map (chunk_images example_ok_env ?sel) [0 ..< 2])"
    using t [THEN conjunct2, THEN conjunct1] by (simp only: c)
  then have d: "map draft_images (draftCases example_ok_run)
       = [[(''Auto_p3'', ''data:image/jpeg;base64,CCCC''),
           (''Auto_p1'', ''data:image/jpeg;base64,CCCC'')]]"
    by (simp add: dr im)
  have "image_callback example_ok_env ?chunk (example_region\<lparr>originalImageIndex := Some 2\<rparr>)
          example_state = Some (None, example_state)
        \<and> expected_image example_ok_env ?chunk (example_region\<lparr>originalImageIndex := Some 2\<rparr>) = None"
    using t [THEN conjunct2, THEN conjunct2, THEN conjunct1, THEN spec, THEN mp, OF conjI, OF 1 2] .
  then have i: "image_callback example_ok_env ?chunk (example_region\<lparr>originalImageIndex := Some 2\<rparr>)
          example_state = Some (None, example_state)" ..
  have "source_page ?chunk example_region = Some (?chunk ! 1)"
    using u [THEN conjunct2, THEN conjunct2, THEN conjunct2, THEN conjunct2, THEN conjunct2,
      THEN conjunct1, THEN spec, THEN mp, OF 3] .
  then have p: "source_page ?chunk example_region = Some (example_page ''p3'' True)"
    by simp
  show ?thesis by (intro conjI) (rule pos d 1 2 i p)+
qed


text \<open>
  The claim as stated also has a region without an index dropped. In the example chunk
  of pages \<open>p1\<close> and \<open>p3\<close>, such a region yields a record cropped from \<open>p1\<close>.
\<close>

theorem missing_index_not_dropped:
  "originalImageIndex (example_region\<lparr>originalImageIndex := None\<rparr>) = None
   \<and> image_callback example_env [example_page ''p1'' True, example_page ''p3'' True]
        (example_region\<lparr>originalImageIndex := None\<rparr>) example_state
       = Some (Some \<lparr>img_id = ''u'', url = ''data:image/jpeg;base64,CCCC'', fileName = ''Auto_p1'',
                      type = ImageType_IHC, magnification = ''x40'',
                      description = ''papillary structures''\<rparr>,
               example_state\<lparr>uuid_count := 1\<rparr>)"
  by (simp add: image_callback_def source_page_def array_get_def example_region_def
        example_env_def example_page_def example_state_def or_else_def)


text \<open>
  C6, as the code has it. The type of a record built from a region is always one of the
  two stain values: the IHC value when the response says so, the H&E value for anything
  else. The magnification is the value of the response unchanged when that is a
  non-empty string, and the value \<open>OTHER\<close> when it is missing or empty; it lies in the
  enumeration of seven values whenever the value of the response does, or is missing or
  empty.
\<close>

theorem record_enumerations:
  assumes "image_callback env chunk imgInfo s = Some (Some r, s')"
  shows "type r \<in> set ImageType_values
       \<and> (type r = ImageType_IHC \<longleftrightarrow> ai_type imgInfo = Some ImageType_IHC)
       \<and> magnification r = (case ai_magnification imgInfo of
                               None \<Rightarrow> Magnification_OTHER
                             | Some m \<Rightarrow> if m = [] then Magnification_OTHER else m)
       \<and> ((ai_magnification imgInfo = None \<or> ai_magnification imgInfo = Some []
             \<or> (\<exists>m \<in> set Magnification_values. ai_magnification imgInfo = Some m))
            \<longrightarrow> magnification r \<in> set Magnification_values)"
proof -
  from image_callback_record [OF assms]
  have t: "type r = (if ai_type imgInfo = Some ImageType_IHC then ImageType_IHC else ImageType_HE)"
    and m: "magnification r = or_else (ai_magnification imgInfo) Magnification_OTHER"
    by auto
  have other: "Magnification_OTHER \<in> set Magnification_values"
    by (simp add: Magnification_values_def)
  have "type r \<in> set ImageType_values" using t by (simp add: ImageType_values_def)
  moreover have "type r = ImageType_IHC \<longleftrightarrow> ai_type imgInfo = Some ImageType_IHC"
    using t enum_values_distinct by simp
  moreover have "magnification r = (case ai_magnification imgInfo of
                               None \<Rightarrow> Magnification_OTHER
                             | Some m \<Rightarrow> if m = [] then Magnification_OTHER else m)"
    using m by (simp add: or_else_def)
  moreover have "magnification r \<in> set Magnification_values"
    if "ai_magnification imgInfo = None \<or> ai_magnification imgInfo = Some []
             \<or> (\<exists>m \<in> set Magnification_values. ai_magnification imgInfo = Some m)"
    using that m other by (auto simp: or_else_def)
  ultimately show ?thesis by blast
qed

theorem record_enumerations_witness:
  "image_callback example_env [example_page ''p1'' True, example_page ''p3'' True]
        example_region example_state
       = Some (Some \<lparr>img_id = ''u'', url = ''data:image/jpeg;base64,CCCC'', fileName = ''Auto_p3'',
                      type = ImageType_IHC, magnification = ''x40'',
                      description = ''papillary structures''\<rparr>,
               example_state\<lparr>uuid_count := 1\<rparr>)
   \<and> ImageType_IHC \<in> set ImageType_values \<and> ''x40'' \<in> set Magnification_values"
proof -
  define r where "r = \<lparr>img_id = ''u'', url = ''data:image/jpeg;base64,CCCC'', fileName = ''Auto_p3'',
                      type = ImageType_IHC, magnification = ''x40'',
                      description = ''papillary structures''\<rparr>"
  have c: "image_callback example_env [example_page ''p1'' True, example_page ''p3'' True]
        example_region example_state = Some (Some r, example_state\<lparr>uuid_count := 1\<rparr>)"
    by (simp add: image_callback_def source_page_def array_get_def example_region_def
        example_env_def example_page_def example_state_def or_else_def r_def)
  have m: "\<exists>m \<in> set Magnification_values. ai_magnification example_region = Some m"
    by (simp add: example_region_def Magnification_values_def)
  from record_enumerations [OF c] m
  have "type r \<in> set ImageType_values" "magnification r \<in> set Magnification_values"
    by blast+
  moreover have "type r = ImageType_IHC" "magnification r = ''x40''"
    by (simp_all add: r_def)
  ultimately show ?thesis using c unfolding r_def by simp
qed

text \<open>
  The claim as stated has every magnification outside the enumeration rejected or
  coerced. A region whose magnification is \<open>x5000\<close> yields a record with that value.
\<close>

theorem magnification_not_coerced:
  "ai_magnification (example_region\<lparr>ai_magnification := Some ''x5000''\<rparr>) = Some ''x5000''
   \<and> ''x5000'' \<notin> set Magnification_values
   \<and> image_callback example_env [example_page ''p1'' True, example_page ''p3'' True]
        (example_region\<lparr>ai_magnification := Some ''x5000''\<rparr>) example_state
       = Some (Some \<lparr>img_id = ''u'', url = ''data:image/jpeg;base64,CCCC'', fileName = ''Auto_p3'',
                      type = ImageType_IHC, magnification = ''x5000'',
                      description = ''papillary structures''\<rparr>,
               example_state\<lparr>uuid_count := 1\<rparr>)"
  by (simp add: image_callback_def source_page_def array_get_def example_region_def
        example_env_def example_page_def example_state_def or_else_def
        Magnification_values_def Magnification_OTHER_def)

section \<open>Properties of the history view and of the draft and case stores\<close>

lemma sort_newest_first_mset: "mset (sort_newest_first xs) = mset xs"
  by (simp add: sort_newest_first_def)

lemma sort_newest_first_sorted: "sorted_wrt (\<lambda>a b. getTime b \<le> getTime a) (sort_newest_first xs)"
proof -
  have "sorted (map (\<lambda>c. - getTime c) (sort_key (\<lambda>c. - getTime c) xs))"
    by (rule sorted_sort_key)
  then show ?thesis by (simp add: sort_newest_first_def sorted_map)
qed

lemma keyed_by_id_delete: "keyed_by_id st \<Longrightarrow> keyed_by_id (store_delete k st)"
  by (simp add: keyed_by_id_def store_delete_def list_all_iff)

lemma getAll_without_key:
  assumes "keyed_by_id st" and "k \<notin> store_keys st" and "d \<in> set (store_getAll st)"
  shows "id' d \<noteq> Some k"
proof -
  from assms(3) obtain key where e: "(key, d) \<in> set st" by (auto simp: store_getAll_def)
  then have "id' d = Some key" using assms(1) by (auto simp: keyed_by_id_def list_all_iff)
  moreover have "key \<noteq> k" using e assms(2) by (force simp: store_keys_def)
  ultimately show ?thesis by simp
qed

lemma unifiedHistory_drafts:
  assumes "x \<in> set (unifiedHistory s)" and "status x = Some ''draft''"
  shows "\<exists>d \<in> set (draftCases s). x = d\<lparr>status := Some ''draft''\<rparr>"
proof -
  have "set (unifiedHistory s) = set (map (\<lambda>c. c\<lparr>status := Some ''confirmed''\<rparr>) (globalHistory s)
                 @ map (\<lambda>d. d\<lparr>status := Some ''draft''\<rparr>) (draftCases s))"
    by (simp add: unifiedHistory_def Let_def sort_newest_first_def)
  then show ?thesis using assms by auto
qed

lemma set_sort_newest_first: "set (sort_newest_first xs) = set xs"
  by (simp add: sort_newest_first_def)

lemma map_of_Some_in_getAll: "map_of st k = Some v \<Longrightarrow> v \<in> set (store_getAll st)"
  by (force simp: store_getAll_def dest: map_of_SomeD)


text \<open>
  C8, as the code has it. The unified history is computed from the two lists the
  component holds in memory, not from the stores. Whatever the confirmed list and the
  draft list hold, it consists of exactly their items, each confirmed item tagged
  \<open>confirmed\<close> and each draft tagged \<open>draft\<close>, ordered by time descending, where an item
  without a timestamp counts as time 0 (the epoch): no item that follows such an item
  has a time after the epoch. \<open>loadAllData\<close> fills the two lists from the case store and
  the draft store and leaves the stores as they are, so right after a load the history
  consists of exactly the objects of both stores, tagged in the same way.
\<close>

theorem unified_history_merged_sorted:
  "mset (unifiedHistory s)
     = mset (map (\<lambda>c. c\<lparr>status := Some ''confirmed''\<rparr>) (globalHistory s))
       + mset (map (\<lambda>d. d\<lparr>status := Some ''draft''\<rparr>) (draftCases s))
   \<and> (\<forall>x \<in> set (unifiedHistory s). status x = Some ''confirmed'' \<or> status x = Some ''draft'')
   \<and> sorted_wrt (\<lambda>a b. getTime b \<le> getTime a) (unifiedHistory s)
   \<and> (\<forall>c. getTime c = (case submittedAt c of None \<Rightarrow> 0 | Some t \<Rightarrow> t))
   \<and> (\<forall>i j. i < j \<and> j < length (unifiedHistory s) \<and> submittedAt (unifiedHistory s ! i) = None
         \<longrightarrow> getTime (unifiedHistory s ! j) \<le> 0)
   \<and> mset (unifiedHistory (loadAllData s))
       = mset (map (\<lambda>c. c\<lparr>status := Some ''confirmed''\<rparr>) (store_getAll (db_cases s)))
         + mset (map (\<lambda>d. d\<lparr>status := Some ''draft''\<rparr>) (store_getAll (db_drafts s)))
   \<and> db_cases (loadAllData s) = db_cases s \<and> db_drafts (loadAllData s) = db_drafts s"
proof -
  let ?tagged = "map (\<lambda>c. c\<lparr>status := Some ''confirmed''\<rparr>) (globalHistory s)
                 @ map (\<lambda>d. d\<lparr>status := Some ''draft''\<rparr>) (draftCases s)"
  have u: "unifiedHistory s = sort_newest_first ?tagged"
    by (simp add: unifiedHistory_def Let_def)
  have 0: "mset (unifiedHistory s) = mset ?tagged"
    by (simp only: u sort_newest_first_mset)
  have 1: "mset (unifiedHistory s)
     = mset (map (\<lambda>c. c\<lparr>status := Some ''confirmed''\<rparr>) (globalHistory s))
       + mset (map (\<lambda>d. d\<lparr>status := Some ''draft''\<rparr>) (draftCases s))"
    using 0 by (simp only: mset_append)
  have "set (unifiedHistory s) = set ?tagged"
    using 0 by (rule mset_eq_setD)
  then have 2: "\<forall>x \<in> set (unifiedHistory s). status x = Some ''confirmed'' \<or> status x = Some ''draft''"
    by auto
  have 3: "sorted_wrt (\<lambda>a b. getTime b \<le> getTime a) (unifiedHistory s)"
    by (simp only: u sort_newest_first_sorted)
  have 4: "\<forall>i j. i < j \<and> j < length (unifiedHistory s) \<and> submittedAt (unifiedHistory s ! i) = None
         \<longrightarrow> getTime (unifiedHistory s ! j) \<le> 0"
  proof (intro allI impI)
    fix i j
    assume a: "i < j \<and> j < length (unifiedHistory s) \<and> submittedAt (unifiedHistory s ! i) = None"
    have "getTime (unifiedHistory s ! j) \<le> getTime (unifiedHistory s ! i)"
      using 3 a by (simp add: sorted_wrt_iff_nth_less)
    then show "getTime (unifiedHistory s ! j) \<le> 0" using a by (simp add: getTime_def)
  qed
  have 5: "\<forall>c. getTime c = (case submittedAt c of None \<Rightarrow> 0 | Some t \<Rightarrow> t)"
    by (simp add: getTime_def)
  have 6: "mset (unifiedHistory (loadAllData s))
       = mset (map (\<lambda>c. c\<lparr>status := Some ''confirmed''\<rparr>) (store_getAll (db_cases s)))
         + mset (map (\<lambda>d. d\<lparr>status := Some ''draft''\<rparr>) (store_getAll (db_drafts s)))"
    by (simp add: unifiedHistory_def loadAllData_def getAllFromDB_def sort_newest_first_def Let_def)
  have 7: "db_cases (loadAllData s) = db_cases s" "db_drafts (loadAllData s) = db_drafts s"
    by (simp_all add: loadAllData_def)
  show ?thesis by (intro conjI) (rule 1 2 3 5 4 6 7)+
qed

theorem unified_history_merged_sorted_witness:
  "unifiedHistory example_review_state
     = [example_draft, example_confirmed\<lparr>status := Some ''confirmed''\<rparr>,
        example_undated\<lparr>status := Some ''confirmed''\<rparr>]
   \<and> submittedAt (unifiedHistory example_review_state ! 2) = None
   \<and> sorted_wrt (\<lambda>a b. getTime b \<le> getTime a) (unifiedHistory example_review_state)
   \<and> map getTime (unifiedHistory example_review_state) = [200, 100, 0]
   \<and> list_all (\<lambda>x. status x = Some ''confirmed'' \<or> status x = Some ''draft'')
        (unifiedHistory example_review_state)
   \<and> mset (unifiedHistory (loadAllData example_review_state))
       = {#example_undated\<lparr>status := Some ''confirmed''\<rparr>,
           example_confirmed\<lparr>status := Some ''confirmed''\<rparr>, example_draft#}"
proof -
  have u: "unifiedHistory example_review_state
     = [example_draft, example_confirmed\<lparr>status := Some ''confirmed''\<rparr>,
        example_undated\<lparr>status := Some ''confirmed''\<rparr>]"
    by (simp add: unifiedHistory_def sort_newest_first_def getTime_def example_review_state_def
          example_state_def example_draft_def example_confirmed_def example_undated_def)
  have t: "map getTime (unifiedHistory example_review_state) = [200, 100, 0]"
    by (simp add: u getTime_def example_draft_def example_confirmed_def example_undated_def)
  have n: "submittedAt (unifiedHistory example_review_state ! 2) = None"
    by (simp add: u example_undated_def)
  have db: "store_getAll (db_cases example_review_state) = [example_undated, example_confirmed]"
      "store_getAll (db_drafts example_review_state) = [example_draft]"
    by (simp_all add: example_review_state_def example_state_def store_getAll_def)
  have dr: "example_draft\<lparr>status := Some ''draft''\<rparr> = example_draft"
    by (simp add: example_draft_def)
  note h = unified_history_merged_sorted [of example_review_state]
  have s: "sorted_wrt (\<lambda>a b. getTime b \<le> getTime a) (unifiedHistory example_review_state)"
    using h by (elim conjE)
  have "\<forall>x \<in> set (unifiedHistory example_review_state).
          status x = Some ''confirmed'' \<or> status x = Some ''draft''"
    using h by (elim conjE)
  then have g: "list_all (\<lambda>x. status x = Some ''confirmed'' \<or> status x = Some ''draft'')
        (unifiedHistory example_review_state)"
    by (simp only: list_all_iff)
  have "mset (unifiedHistory (loadAllData example_review_state))
       = mset (map (\<lambda>c. c\<lparr>status := Some ''confirmed''\<rparr>)
                  (store_getAll (db_cases example_review_state)))
         + mset (map (\<lambda>d. d\<lparr>status := Some ''draft''\<rparr>)
                  (store_getAll (db_drafts example_review_state)))"
    using h by (elim conjE)
  then have l: "mset (unifiedHistory (loadAllData example_review_state))
       = {#example_undated\<lparr>status := Some ''confirmed''\<rparr>,
           example_confirmed\<lparr>status := Some ''confirmed''\<rparr>, example_draft#}"
    by (simp add: db dr)
  show ?thesis by (intro conjI) (rule u n s t g l)+
qed

text \<open>
  The claim as stated has the history hold the union of both collections in every
  state. The lists in memory and the stores part ways when a chunk fails after one of
  its cases was saved: the drafts of a chunk are appended to the draft list only after
  all its cases are through. In the example, the reply to the first request holds the
  example case followed by \<open>null\<close>; the run ends with the draft of the example case in the
  draft store, an empty draft list and an empty history.
\<close>

theorem history_misses_persisted_draft:
  "processBatchSequentially example_partial_env example_state = Normal example_partial_run
   \<and> map caseId (store_getAll (db_drafts example_partial_run)) = [''Case-3-0'']
   \<and> store_getAll (db_cases example_partial_run) = []
   \<and> draftCases example_partial_run = []
   \<and> globalHistory example_partial_run = []
   \<and> unifiedHistory example_partial_run = []"
  by code_simp


text \<open>
  C9. Deleting the draft with id \<open>k\<close> leaves no entry under \<open>k\<close> in the draft store and no
  draft with that id in the draft list, so no draft of the unified history has that id,
  neither as computed from the lists in memory nor after they are reloaded from the
  stores (whose entries sit under the id of their value).
\<close>

theorem draft_delete_removes:
  assumes "s' = handleDraftDelete k s"
  shows "k \<notin> store_keys (db_drafts s')
       \<and> (\<forall>d \<in> set (draftCases s'). id' d \<noteq> Some k)
       \<and> (\<forall>x \<in> set (unifiedHistory s'). status x = Some ''draft'' \<longrightarrow> id' x \<noteq> Some k)
       \<and> (keyed_by_id (db_drafts s)
            \<longrightarrow> (\<forall>x \<in> set (unifiedHistory (loadAllData s')).
                    status x = Some ''draft'' \<longrightarrow> id' x \<noteq> Some k))"
proof -
  have db: "db_drafts s' = store_delete k (db_drafts s)"
    and mem: "draftCases s' = filter (\<lambda>d. id' d \<noteq> Some k) (draftCases s)"
    using assms by (simp_all add: handleDraftDelete_def removeFromDB_def Let_def)
  have 1: "k \<notin> store_keys (db_drafts s')" by (simp add: db store_keys_delete)
  have 2: "\<forall>d \<in> set (draftCases s'). id' d \<noteq> Some k" by (simp add: mem)
  have 3: "\<forall>x \<in> set (unifiedHistory s'). status x = Some ''draft'' \<longrightarrow> id' x \<noteq> Some k"
  proof (intro ballI impI)
    fix x assume "x \<in> set (unifiedHistory s')" "status x = Some ''draft''"
    from unifiedHistory_drafts [OF this] obtain d where "d \<in> set (draftCases s')"
        "x = d\<lparr>status := Some ''draft''\<rparr>" by blast
    then show "id' x \<noteq> Some k" using 2 by simp
  qed
  have 4: "\<forall>x \<in> set (unifiedHistory (loadAllData s')).
                    status x = Some ''draft'' \<longrightarrow> id' x \<noteq> Some k" if "keyed_by_id (db_drafts s)"
  proof (intro ballI impI)
    fix x assume "x \<in> set (unifiedHistory (loadAllData s'))" "status x = Some ''draft''"
    from unifiedHistory_drafts [OF this] obtain d where d: "d \<in> set (draftCases (loadAllData s'))"
        "x = d\<lparr>status := Some ''draft''\<rparr>" by blast
    have "d \<in> set (store_getAll (db_drafts s'))"
      using d(1) by (simp add: loadAllData_def getAllFromDB_def)
    moreover have "keyed_by_id (db_drafts s')" using that by (simp add: db keyed_by_id_delete)
    ultimately have "id' d \<noteq> Some k" using 1 by (rule getAll_without_key [rotated 2])
    then show "id' x \<noteq> Some k" using d(2) by simp
  qed
  show ?thesis using 1 2 3 4 by blast
qed

theorem draft_delete_removes_witness:
  "keyed_by_id (db_drafts example_review_state)
   \<and> ''uuu'' \<in> store_keys (db_drafts example_review_state)
   \<and> ''uuu'' \<notin> store_keys (db_drafts (handleDraftDelete ''uuu'' example_review_state))
   \<and> draftCases (handleDraftDelete ''uuu'' example_review_state) = []
   \<and> unifiedHistory (handleDraftDelete ''uuu'' example_review_state)
       = [example_confirmed\<lparr>status := Some ''confirmed''\<rparr>,
          example_undated\<lparr>status := Some ''confirmed''\<rparr>]"
proof -
  have k: "keyed_by_id (db_drafts example_review_state)"
    by (simp add: keyed_by_id_def example_review_state_def example_draft_def)
  have i: "''uuu'' \<in> store_keys (db_drafts example_review_state)"
    by (simp add: store_keys_def example_review_state_def)
  have m: "draftCases (handleDraftDelete ''uuu'' example_review_state) = []"
    by (simp add: handleDraftDelete_def removeFromDB_def example_review_state_def example_draft_def)
  have u: "unifiedHistory (handleDraftDelete ''uuu'' example_review_state)
       = [example_confirmed\<lparr>status := Some ''confirmed''\<rparr>,
          example_undated\<lparr>status := Some ''confirmed''\<rparr>]"
    by (simp add: unifiedHistory_def sort_newest_first_def getTime_def handleDraftDelete_def
          removeFromDB_def example_review_state_def example_state_def example_draft_def
          example_confirmed_def example_undated_def)
  from draft_delete_removes [OF refl, of "''uuu''" example_review_state]
  have "''uuu'' \<notin> store_keys (db_drafts (handleDraftDelete ''uuu'' example_review_state))"
    by (elim conjE)
  then show ?thesis using k i m u by (intro conjI)
qed

text \<open>
  C3. Confirming the current draft, whose id is \<open>k\<close>, removes the entry \<open>k\<close> from the draft
  store and the draft from the reloaded draft list, and leaves in the case store exactly
  one entry under the draft's caseId: the draft with the confirmation time and without
  \<open>id\<close> and \<open>status\<close>. The keys of the case store are the former keys and that caseId, and
  every other entry is as before, so a caseId confirmed before is overwritten, not
  duplicated.
\<close>

theorem confirm_moves_draft:
  assumes "currentCase s = Some cur" and "id' cur = Some k" and "s' = handleCaseSubmit env s"
    and "confirmed = cur\<lparr>submittedAt := Some (clock env (clock_count s)), id' := None, status := None\<rparr>"
  shows "k \<notin> store_keys (db_drafts s')
       \<and> (keyed_by_id (db_drafts s) \<longrightarrow> (\<forall>d \<in> set (draftCases s'). id' d \<noteq> Some k))
       \<and> length (filter (\<lambda>e. fst e = caseId cur) (db_cases s')) = 1
       \<and> map_of (db_cases s') (caseId cur) = Some confirmed
       \<and> caseId confirmed = caseId cur \<and> id' confirmed = None \<and> status confirmed = None
       \<and> store_keys (db_cases s') = insert (caseId cur) (store_keys (db_cases s))
       \<and> (\<forall>key. key \<noteq> caseId cur \<longrightarrow> map_of (db_cases s') key = map_of (db_cases s) key)
       \<and> confirmed \<in> set (globalHistory s')"
proof -
  have ck: "caseId confirmed = caseId cur" "id' confirmed = None" "status confirmed = None"
    by (simp_all add: assms(4))
  have s': "db_cases s' = store_put (caseId cur) confirmed (db_cases s)"
      "db_drafts s' = store_delete k (db_drafts s)"
      "draftCases s' = store_getAll (db_drafts s')"
      "globalHistory s' = sort_newest_first (store_getAll (db_cases s'))"
    using assms
    by (simp_all add: handleCaseSubmit_def Let_def saveToDB_def removeFromDB_def loadAllData_def
          getAllFromDB_def)
  have 1: "k \<notin> store_keys (db_drafts s')" by (simp add: s'(2) store_keys_delete)
  have 2: "\<forall>d \<in> set (draftCases s'). id' d \<noteq> Some k" if "keyed_by_id (db_drafts s)"
  proof
    fix d assume "d \<in> set (draftCases s')"
    then have "d \<in> set (store_getAll (db_drafts s'))" by (simp add: s'(3))
    moreover have "keyed_by_id (db_drafts s')" using that by (simp add: s'(2) keyed_by_id_delete)
    ultimately show "id' d \<noteq> Some k" using 1 by (rule getAll_without_key [rotated 2])
  qed
  have 3: "length (filter (\<lambda>e. fst e = caseId cur) (db_cases s')) = 1"
    by (simp only: s'(1) count_store_put)
  have 4: "map_of (db_cases s') (caseId cur) = Some confirmed"
    by (simp add: s'(1) map_of_store_put)
  have 5: "store_keys (db_cases s') = insert (caseId cur) (store_keys (db_cases s))"
    by (simp add: s'(1) store_keys_put)
  have 6: "\<forall>key. key \<noteq> caseId cur \<longrightarrow> map_of (db_cases s') key = map_of (db_cases s) key"
    by (simp add: s'(1) map_of_store_put)
  have 7: "confirmed \<in> set (globalHistory s')"
    using map_of_Some_in_getAll [OF 4] by (simp add: s'(4) set_sort_newest_first)
  show ?thesis using ck 1 2 3 4 5 6 7 by blast
qed

theorem confirm_moves_draft_witness:
  "currentCase example_review_state = Some example_draft
   \<and> id' example_draft = Some ''uuu''
   \<and> ''Case-3-0'' \<in> store_keys (db_cases example_review_state)
   \<and> db_drafts (handleCaseSubmit example_env example_review_state) = []
   \<and> draftCases (handleCaseSubmit example_env example_review_state) = []
   \<and> db_cases (handleCaseSubmit example_env example_review_state)
       = [(''Case-1-1'', example_undated),
          (''Case-3-0'', example_draft\<lparr>submittedAt := Some 1700000000000, id' := None, status := None\<rparr>)]
   \<and> map_of (db_cases (handleCaseSubmit example_env example_review_state)) ''Case-3-0''
       = Some (example_draft\<lparr>submittedAt := Some 1700000000000, id' := None, status := None\<rparr>)"
proof -
  have c: "currentCase example_review_state = Some example_draft"
    by (simp add: currentCase_def example_review_state_def example_state_def)
  have i: "id' example_draft = Some ''uuu''" by (simp add: example_draft_def)
  have o: "''Case-3-0'' \<in> store_keys (db_cases example_review_state)"
    by (simp add: store_keys_def example_review_state_def)
  have t: "example_draft\<lparr>submittedAt := Some 1700000000000, id' := None, status := None\<rparr>
      = example_draft\<lparr>submittedAt := Some (clock example_env (clock_count example_review_state)),
                       id' := None, status := None\<rparr>"
    by (simp add: example_env_def example_review_state_def example_state_def)
  have d: "db_drafts (handleCaseSubmit example_env example_review_state) = []"
    using c i by (simp add: handleCaseSubmit_def Let_def saveToDB_def removeFromDB_def
          loadAllData_def store_delete_def example_review_state_def)
  have l: "draftCases (handleCaseSubmit example_env example_review_state) = []"
    using c i by (simp add: handleCaseSubmit_def Let_def saveToDB_def removeFromDB_def
          loadAllData_def getAllFromDB_def store_getAll_def store_delete_def
          example_review_state_def)
  have e: "db_cases (handleCaseSubmit example_env example_review_state)
       = [(''Case-1-1'', example_undated),
          (''Case-3-0'', example_draft\<lparr>submittedAt := Some 1700000000000, id' := None, status := None\<rparr>)]"
    using c i by (simp add: handleCaseSubmit_def Let_def saveToDB_def removeFromDB_def
          loadAllData_def store_put_def example_review_state_def example_env_def example_state_def
          example_draft_def)
  note T = confirm_moves_draft [OF c i refl t]
  have cid: "caseId example_draft = ''Case-3-0''" by (simp add: example_draft_def)
  have m: "map_of (db_cases (handleCaseSubmit example_env example_review_state)) ''Case-3-0''
       = Some (example_draft\<lparr>submittedAt := Some 1700000000000, id' := None, status := None\<rparr>)"
    using T [THEN conjunct2, THEN conjunct2, THEN conjunct2, THEN conjunct1] by (simp only: cid)
  show ?thesis
    by (intro conjI) (rule c i o d l e m)+
qed

section \<open>Properties of the diagnostic-basis editor and of the export view\<close>



lemma fold_set_property:
  assumes "l \<noteq> ''__proto__''"
  shows "fold (\<lambda>curr acc. set_property (label curr) (processContent P (label curr) (content curr)) acc)
           ts acc l
         = (case filter (\<lambda>t. label t = l) ts of
              [] \<Rightarrow> acc l
            | x # xs \<Rightarrow> Some (processContent P l (content (last (x # xs)))))"
proof (induction ts arbitrary: acc)
  case Nil
  show ?case by simp
next
  case (Cons t ts)
  let ?f = "\<lambda>curr acc. set_property (label curr) (processContent P (label curr) (content curr)) acc"
  have step: "fold ?f (t # ts) acc l
      = (case filter (\<lambda>t. label t = l) ts of
           [] \<Rightarrow> ?f t acc l
         | x # xs \<Rightarrow> Some (processContent P l (content (last (x # xs)))))"
    by (simp only: fold_simps Cons.IH)
  show ?case
  proof (cases "label t = l")
    case True
    then have "?f t acc l = Some (processContent P l (content t))"
      using assms by (simp add: set_property_def)
    then show ?thesis using True by (simp only: step) (simp split: list.splits)
  next
    case False
    then have "?f t acc l = acc l" by (simp add: set_property_def)
    then show ?thesis using False by (simp only: step) (simp split: list.splits)
  qed
qed

text \<open>
  C10. The exported \<open>sections\<close> object is the left fold of \<open>acc[label] = \<dots>\<close> over the text
  sections, so under each label (\<open>__proto__\<close> apart, which names no own property) it
  holds the processed content of the last section with that label and nothing of the
  earlier ones; for every label but the diagnostic basis that is the content itself.
\<close>

theorem export_sections_last_wins:
  assumes "l \<noteq> ''__proto__''"
  shows "export_sections JSON_parse d l
           = (case filter (\<lambda>t. label t = l) (textSections d) of
                [] \<Rightarrow> None
              | x # xs \<Rightarrow> Some (processContent JSON_parse l (content (last (x # xs)))))
       \<and> (l \<noteq> TextLabel_DIAGNOSTIC_BASIS \<and> filter (\<lambda>t. label t = l) (textSections d) \<noteq> []
            \<longrightarrow> export_sections JSON_parse d l
                = Some (JStr (content (last (filter (\<lambda>t. label t = l) (textSections d))))))"
proof -
  have 1: "export_sections JSON_parse d l
           = (case filter (\<lambda>t. label t = l) (textSections d) of
                [] \<Rightarrow> None
              | x # xs \<Rightarrow> Some (processContent JSON_parse l (content (last (x # xs)))))"
    unfolding export_sections_def by (subst fold_set_property [OF assms]) simp
  have 2: "export_sections JSON_parse d l
                = Some (JStr (content (last (filter (\<lambda>t. label t = l) (textSections d)))))"
    if "l \<noteq> TextLabel_DIAGNOSTIC_BASIS" "filter (\<lambda>t. label t = l) (textSections d) \<noteq> []"
    using that by (simp add: 1 processContent_def split: list.splits)
  show ?thesis using 1 2 by blast
qed

theorem export_sections_last_wins_witness:
  "''diagnosis'' \<noteq> ''__proto__''
   \<and> length (filter (\<lambda>t. label t = ''diagnosis'') (textSections example_repeated_label)) = 2
   \<and> export_sections table_parse example_repeated_label ''diagnosis'' = Some (JStr ''carcinoma'')"
proof -
  have n: "''diagnosis'' \<noteq> ''__proto__''" by simp
  have d: "''diagnosis'' \<noteq> TextLabel_DIAGNOSTIC_BASIS" by (simp add: TextLabel_DIAGNOSTIC_BASIS_def)
  have f: "filter (\<lambda>t. label t = ''diagnosis'') (textSections example_repeated_label)
      = [\<lparr>sec_id = ''s1'', label = ''diagnosis'', content = ''adenoma''\<rparr>,
         \<lparr>sec_id = ''s3'', label = ''diagnosis'', content = ''carcinoma''\<rparr>]"
    by (simp add: example_repeated_label_def)
  have ne: "filter (\<lambda>t. label t = ''diagnosis'') (textSections example_repeated_label) \<noteq> []"
    by (simp add: f)
  have "export_sections table_parse example_repeated_label ''diagnosis''
      = Some (JStr (content (last (filter (\<lambda>t. label t = ''diagnosis'') (textSections example_repeated_label)))))"
    using export_sections_last_wins [OF n, of table_parse example_repeated_label] d ne by blast
  then show ?thesis using n by (simp add: f)
qed

end
